theory Spec2Isabelle
  imports Complex_Main "HOL-Library.Multiset"
begin

section \<open>JavaScript strings and objects\<close>

text \<open>
  A string is the list of its UTF-16 code units, each below 256 (ASCII and the Latin-1
  supplement); on these, \<^verbatim>\<open>toLowerCase\<close>, \<^verbatim>\<open>trim\<close>, the class \<^verbatim>\<open>\s\<close> and \<^verbatim>\<open>parseInt\<close> are
  modelled as JavaScript defines them. Strings with other code units are outside the
  model.
\<close>

definition upper_letters :: string where
  "upper_letters = ''ABCDEFGHIJKLMNOPQRSTUVWXYZ''"

definition lower_letters :: string where
  "lower_letters = ''abcdefghijklmnopqrstuvwxyz''"

text \<open>The capital letters of the Latin-1 supplement with their small letters.\<close>

definition latin1_letters :: "(char \<times> char) list" where
  "latin1_letters =
     [(CHR 0xC0, CHR 0xE0), (CHR 0xC1, CHR 0xE1), (CHR 0xC2, CHR 0xE2),
      (CHR 0xC3, CHR 0xE3), (CHR 0xC4, CHR 0xE4), (CHR 0xC5, CHR 0xE5),
      (CHR 0xC6, CHR 0xE6), (CHR 0xC7, CHR 0xE7), (CHR 0xC8, CHR 0xE8),
      (CHR 0xC9, CHR 0xE9), (CHR 0xCA, CHR 0xEA), (CHR 0xCB, CHR 0xEB),
      (CHR 0xCC, CHR 0xEC), (CHR 0xCD, CHR 0xED), (CHR 0xCE, CHR 0xEE),
      (CHR 0xCF, CHR 0xEF), (CHR 0xD0, CHR 0xF0), (CHR 0xD1, CHR 0xF1),
      (CHR 0xD2, CHR 0xF2), (CHR 0xD3, CHR 0xF3), (CHR 0xD4, CHR 0xF4),
      (CHR 0xD5, CHR 0xF5), (CHR 0xD6, CHR 0xF6), (CHR 0xD8, CHR 0xF8),
      (CHR 0xD9, CHR 0xF9), (CHR 0xDA, CHR 0xFA), (CHR 0xDB, CHR 0xFB),
      (CHR 0xDC, CHR 0xFC), (CHR 0xDD, CHR 0xFD), (CHR 0xDE, CHR 0xFE)]"

definition toLowerCase_char :: "char \<Rightarrow> char" where
  "toLowerCase_char c =
     (case map_of (zip upper_letters lower_letters) c of
        Some d \<Rightarrow> d
      | None \<Rightarrow> (case map_of latin1_letters c of Some d \<Rightarrow> d | None \<Rightarrow> c))"

definition toLowerCase :: "string \<Rightarrow> string" where
  "toLowerCase s = map toLowerCase_char s"

definition startsWith :: "string \<Rightarrow> string \<Rightarrow> bool" where
  "startsWith s p = (take (length p) s = p)"

text \<open>\<^verbatim>\<open>s.includes(sub)\<close>: \<open>sub\<close> occurs in \<open>s\<close> as a contiguous block.\<close>

fun str_includes :: "string \<Rightarrow> string \<Rightarrow> bool" where
  "str_includes [] sub = (sub = [])"
| "str_includes (x # xs) sub = (startsWith (x # xs) sub \<or> str_includes xs sub)"

text \<open>\<^verbatim>\<open>s.split(c)\<close> for a one-character separator: never the empty list.\<close>

fun js_split :: "char \<Rightarrow> string \<Rightarrow> string list" where
  "js_split c [] = [[]]"
| "js_split c (x # xs) =
     (if x = c then [] # js_split c xs
      else (case js_split c xs of [] \<Rightarrow> [[x]] | p # ps \<Rightarrow> (x # p) # ps))"

text \<open>\<^verbatim>\<open>parts[0] || ''\<close> and \<^verbatim>\<open>parts[parts.length - 1] || ''\<close>.\<close>

fun first_part :: "string list \<Rightarrow> string" where
  "first_part [] = []"
| "first_part (p # ps) = p"

fun last_part :: "string list \<Rightarrow> string" where
  "last_part [] = []"
| "last_part [p] = p"
| "last_part (p # ps) = last_part ps"

text \<open>
  A plain object \<^verbatim>\<open>{}\<close> is the list of its own entries in insertion order. Reading
  \<^verbatim>\<open>obj[k]\<close> finds an own entry first and then the members every plain object inherits
  from \<^verbatim>\<open>Object.prototype\<close>, which are functions (or, for \<^verbatim>\<open>__proto__\<close>, the prototype
  object) and therefore truthy.
\<close>

type_synonym 'v obj = "(string \<times> 'v) list"

definition Object_prototype_names :: "string list" where
  "Object_prototype_names =
     [''constructor'', ''__defineGetter__'', ''__defineSetter__'', ''hasOwnProperty'',
      ''__lookupGetter__'', ''__lookupSetter__'', ''isPrototypeOf'',
      ''propertyIsEnumerable'', ''toString'', ''valueOf'', ''__proto__'',
      ''toLocaleString'']"

definition inherited :: "string \<Rightarrow> bool" where
  "inherited k = (k \<in> set Object_prototype_names)"

text \<open>\<^verbatim>\<open>obj[k] = v\<close> on a key that is not inherited: replace in place or append.\<close>

fun obj_set :: "'v obj \<Rightarrow> string \<Rightarrow> 'v \<Rightarrow> 'v obj" where
  "obj_set [] k v = [(k, v)]"
| "obj_set ((k', v') # xs) k v =
     (if k' = k then (k', v) # xs else (k', v') # obj_set xs k v)"

datatype js_error = TypeError

text \<open>
  The idiom \<^verbatim>\<open>if (!obj[k]) obj[k] = d; ... obj[k] ...\<close> followed by a mutation \<open>f\<close> of the
  entry. The entries are objects, so an own entry is truthy. When \<open>k\<close> is an inherited
  name the test finds the inherited member, nothing is created, and the mutation that
  follows reads a field of a function that is \<^verbatim>\<open>undefined\<close>: a TypeError.
\<close>

definition obj_modify ::
  "'v obj \<Rightarrow> string \<Rightarrow> 'v \<Rightarrow> ('v \<Rightarrow> js_error + 'v) \<Rightarrow> js_error + 'v obj" where
  "obj_modify obj k d f =
     (case map_of obj k of
        Some v \<Rightarrow> (case f v of Inl e \<Rightarrow> Inl e | Inr v' \<Rightarrow> Inr (obj_set obj k v'))
      | None \<Rightarrow>
          if inherited k then Inl TypeError
          else (case f d of Inl e \<Rightarrow> Inl e | Inr v' \<Rightarrow> Inr (obj_set obj k v')))"

section \<open>JavaScript numbers\<close>

text \<open>
  A number is a finite IEEE double, given by the rational it denotes. Every \<^verbatim>\<open>+\<close> and \<^verbatim>\<open>*\<close>
  rounds the exact result to the nearest double, ties to even: to a significand of 53
  bits, and to a multiple of \<open>2\<^sup>-\<^sup>1\<^sup>0\<^sup>7\<^sup>4\<close> below \<open>2\<^sup>-\<^sup>1\<^sup>0\<^sup>2\<^sup>2\<close> (gradual underflow). A result of
  magnitude \<open>2\<^sup>1\<^sup>0\<^sup>2\<^sup>4\<close> or more, which JavaScript turns into \<^verbatim>\<open>Infinity\<close>, is outside the
  model, and so is \<^verbatim>\<open>NaN\<close>. Element counts are naturals (a count stays exact below \<open>2\<^sup>5\<^sup>3\<close>).
\<close>

function bit_length :: "int \<Rightarrow> int" where
  "bit_length n = (if n \<le> 0 then 0 else 1 + bit_length (n div 2))"
  by pat_completeness auto
termination
  by (relation "measure nat") auto

definition pow2 :: "int \<Rightarrow> rat" where
  "pow2 e = (if 0 \<le> e then 2 ^ nat e else 1 / 2 ^ nat (- e))"

text \<open>The exponent \<open>e\<close> with \<open>2^e \<le> |x| < 2^(e+1)\<close>, for \<open>x\<close> other than 0.\<close>

definition binary_exponent :: "rat \<Rightarrow> int" where
  "binary_exponent x =
     (let e0 = bit_length \<bar>fst (quotient_of x)\<bar> - bit_length (snd (quotient_of x))
      in if pow2 e0 \<le> \<bar>x\<bar> then e0 else e0 - 1)"

definition round_half_even :: "rat \<Rightarrow> int" where
  "round_half_even r =
     (let f = \<lfloor>r\<rfloor>; d = r - of_int f
      in if d < 1 / 2 then f
         else if 1 / 2 < d then f + 1
         else if even f then f else f + 1)"

definition round_double :: "rat \<Rightarrow> rat" where
  "round_double x =
     (if x = 0 then 0
      else (let q = pow2 (max (binary_exponent x) (- 1022) - 52)
            in of_int (round_half_even (x / q)) * q))"

text \<open>\<^verbatim>\<open>x + y\<close> and \<^verbatim>\<open>x * y\<close> on doubles.\<close>

definition fadd :: "rat \<Rightarrow> rat \<Rightarrow> rat" where
  "fadd x y = round_double (x + y)"

definition fmul :: "rat \<Rightarrow> rat \<Rightarrow> rat" where
  "fmul x y = round_double (x * y)"

text \<open>
  The unit roundoff \<open>2\<^sup>-\<^sup>5\<^sup>3\<close> and the least normal double \<open>2\<^sup>-\<^sup>1\<^sup>0\<^sup>2\<^sup>2\<close>.
\<close>

definition unit_roundoff :: rat where
  "unit_roundoff = 1 / 2 ^ 53"

definition min_normal :: rat where
  "min_normal = pow2 (- 1022)"

text \<open>A property value of an element: string, number or boolean.\<close>

datatype propval = PStr string | PNum rat | PBool bool

section \<open>estimate.js: quantity detection\<close>

text \<open>The literals \<^verbatim>\<open>10.7639\<close>, \<^verbatim>\<open>3.28084\<close> and \<^verbatim>\<open>1.30795\<close>: the nearest doubles.\<close>

definition M2_TO_SF :: rat where "M2_TO_SF = round_double (107639 / 10000)"
definition M_TO_LF :: rat where "M_TO_LF = round_double (328084 / 100000)"
definition M3_TO_CY :: rat where "M3_TO_CY = round_double (130795 / 100000)"

definition QTO_SET_NAMES :: "string list" where
  "QTO_SET_NAMES =
     [''basequantities'', ''qto_'', ''dimensions'', ''quantities'',
      ''elementquantity'', ''analytical properties'', ''pset_revit_dimensions'']"

definition QUANTITY_NAME_KEYWORDS :: "string list" where
  "QUANTITY_NAME_KEYWORDS =
     [''area'', ''surface'', ''volume'',
      ''length'', ''height'', ''width'', ''depth'', ''perimeter'', ''thickness'',
      ''count'']"

datatype category = Area | Volume | Length | Count

definition classifyQuantityKey :: "string \<Rightarrow> category option" where
  "classifyQuantityKey propKey =
     (let lower = toLowerCase propKey;
          parts = js_split CHR ''.'' lower;
          setName = first_part parts;
          name = last_part parts;
          isKnownSet = list_ex (\<lambda>p. startsWith setName p) QTO_SET_NAMES;
          isDimensionName = list_ex (\<lambda>k. str_includes name k) QUANTITY_NAME_KEYWORDS
      in if \<not> isKnownSet \<and> \<not> isDimensionName then None
         else if str_includes name ''area'' \<or> str_includes name ''surface'' then Some Area
         else if str_includes name ''volume'' then Some Volume
         else if str_includes name ''length'' \<or> str_includes name ''height'' \<or>
                 str_includes name ''width'' \<or> str_includes name ''depth'' \<or>
                 str_includes name ''perimeter'' \<or> str_includes name ''thickness''
           then Some Length
         else if str_includes name ''count'' then Some Count
         else None)"

record candidate =
  "value" :: rat
  isGross :: bool
  key :: string

text \<open>
  The body of the first loop of \<^verbatim>\<open>extractQuantities\<close>: a pair is pushed on the list of its
  category when the key has a category and the value is a number above zero.
\<close>

definition push_candidate ::
  "string \<times> propval \<Rightarrow> (category \<Rightarrow> candidate list) \<Rightarrow> (category \<Rightarrow> candidate list)" where
  "push_candidate kv candidates =
     (case classifyQuantityKey (fst kv) of
        None \<Rightarrow> candidates
      | Some cat \<Rightarrow>
          (case snd kv of
             PNum val \<Rightarrow>
               if val > 0
               then candidates(cat := candidates cat @
                      [\<lparr>value = val,
                        isGross = str_includes (toLowerCase (fst kv)) ''gross'',
                        key = fst kv\<rparr>])
               else candidates
           | _ \<Rightarrow> candidates))"

text \<open>\<^verbatim>\<open>Math.max(x, ...xs)\<close> of at least one argument.\<close>

definition Math_max :: "rat \<Rightarrow> rat list \<Rightarrow> rat" where
  "Math_max x xs = fold max xs x"

text \<open>
  The result object \<^verbatim>\<open>{area, volume, length, count}\<close> is a function of the category;
  a missing property bag is \<open>None\<close>.
\<close>

definition extractQuantities :: "(string \<times> propval) list option \<Rightarrow> category \<Rightarrow> rat" where
  "extractQuantities props =
     (case props of
        None \<Rightarrow> (\<lambda>cat. 0)
      | Some entries \<Rightarrow>
          (let candidates = fold push_candidate entries (\<lambda>cat. [])
           in (\<lambda>cat.
                 (case candidates cat of
                    [] \<Rightarrow> 0
                  | v # vs \<Rightarrow>
                      (case filter isGross (v # vs) of
                         g # gs \<Rightarrow> Math_max (value g) (map value gs)
                       | [] \<Rightarrow> Math_max (value v) (map value vs))))))"

section \<open>estimate.js: aggregation\<close>

text \<open>An entry of the viewer's \<^verbatim>\<open>elementDataMap\<close>.\<close>

record element =
  ifcType :: string
  name :: string
  storey :: string
  props :: "(string \<times> propval) list option"
  modelIdx :: nat

record aggregate =
  ea :: nat
  sf :: rat
  lf :: rat
  cy :: rat
  elements :: "string list"

definition emptyAgg :: aggregate where
  "emptyAgg = \<lparr>ea = 0, sf = 0, lf = 0, cy = 0, elements = []\<rparr>"

definition addToAgg :: "aggregate \<Rightarrow> (category \<Rightarrow> rat) \<Rightarrow> string \<Rightarrow> aggregate" where
  "addToAgg agg quantities k =
     agg\<lparr>ea := ea agg + 1,
         sf := fadd (sf agg) (fmul (quantities Area) M2_TO_SF),
         lf := fadd (lf agg) (fmul (quantities Length) M_TO_LF),
         cy := fadd (cy agg) (fmul (quantities Volume) M3_TO_CY),
         elements := elements agg @ [k]\<rparr>"

record storey_node =
  storey_agg :: aggregate
  types :: "aggregate obj"

definition empty_storey_node :: storey_node where
  "empty_storey_node = \<lparr>storey_agg = emptyAgg, types = []\<rparr>"

text \<open>One iteration of the loop of \<^verbatim>\<open>aggregateSpatial\<close> over \<^verbatim>\<open>[key, data]\<close>.\<close>

definition spatial_step ::
  "string \<times> element \<Rightarrow> storey_node obj \<times> aggregate \<Rightarrow>
   js_error + storey_node obj \<times> aggregate" where
  "spatial_step kd acc =
     (let q = extractQuantities (props (snd kd));
          storey = (if storey (snd kd) = [] then ''Unassigned'' else storey (snd kd));
          ifcType = (if ifcType (snd kd) = [] then ''UNKNOWN'' else ifcType (snd kd))
      in case obj_modify (fst acc) storey empty_storey_node
                (\<lambda>node.
                   case obj_modify (types node) ifcType emptyAgg
                          (\<lambda>a. Inr (addToAgg a q (fst kd))) of
                     Inl e \<Rightarrow> Inl e
                   | Inr ts \<Rightarrow>
                       Inr (node\<lparr>storey_agg := addToAgg (storey_agg node) q (fst kd),
                                 types := ts\<rparr>)) of
           Inl e \<Rightarrow> Inl e
         | Inr tree \<Rightarrow> Inr (tree, addToAgg (snd acc) q (fst kd)))"

fun spatial_loop ::
  "(string \<times> element) list \<Rightarrow> storey_node obj \<times> aggregate \<Rightarrow>
   js_error + storey_node obj \<times> aggregate" where
  "spatial_loop [] acc = Inr acc"
| "spatial_loop (kd # rest) acc =
     (case spatial_step kd acc of Inl e \<Rightarrow> Inl e | Inr acc' \<Rightarrow> spatial_loop rest acc')"

text \<open>The result \<^verbatim>\<open>{ tree, totals }\<close>, or the exception that ends the call.\<close>

definition aggregateSpatial ::
  "(string \<times> element) list \<Rightarrow> js_error + storey_node obj \<times> aggregate" where
  "aggregateSpatial elementDataMap = spatial_loop elementDataMap ([], emptyAgg)"

text \<open>
  What a field or a table lookup can hold here: \<^verbatim>\<open>undefined\<close>, \<^verbatim>\<open>null\<close>, a string, or a
  member inherited from \<^verbatim>\<open>Object.prototype\<close> (named by its key).
\<close>

datatype jsval = JUndefined | JNull | JStr string | JInherited string

fun truthy :: "jsval \<Rightarrow> bool" where
  "truthy JUndefined = False"
| "truthy JNull = False"
| "truthy (JStr s) = (s \<noteq> [])"
| "truthy (JInherited k) = True"

text \<open>\<^verbatim>\<open>obj[k]\<close> on a plain object whose own values are strings or null.\<close>

definition js_get :: "jsval obj \<Rightarrow> string \<Rightarrow> jsval" where
  "js_get obj k =
     (case map_of obj k of
        Some v \<Rightarrow> v
      | None \<Rightarrow> if inherited k then JInherited k else JUndefined)"

text \<open>A value of the \<^verbatim>\<open>classifications\<close> map: \<^verbatim>\<open>{ code, source, confidence }\<close>.\<close>

record classification =
  code :: jsval
  source :: string
  confidence :: rat

record 'c uf_node =
  agg :: aggregate
  children :: "'c obj"

definition empty_uf_node :: "'c uf_node" where
  "empty_uf_node = \<lparr>agg = emptyAgg, children = []\<rparr>"

text \<open>
  One iteration of the loop of \<^verbatim>\<open>aggregateUniformat\<close>; the accumulator is
  \<^verbatim>\<open>(tree, totals, unclassified)\<close>. A truthy code that is not a string has no
  \<^verbatim>\<open>substring\<close> method: a TypeError.
\<close>

definition uniformat_step ::
  "(string \<rightharpoonup> classification) \<Rightarrow> string \<times> element \<Rightarrow>
   aggregate uf_node uf_node obj \<times> aggregate \<times> aggregate \<Rightarrow>
   js_error + aggregate uf_node uf_node obj \<times> aggregate \<times> aggregate" where
  "uniformat_step classifications kd acc =
     (let q = extractQuantities (props (snd kd));
          k = fst kd;
          tree = fst acc; totals = fst (snd acc); unclassified = snd (snd acc)
      in case classifications k of
           None \<Rightarrow> Inr (tree, addToAgg totals q k, addToAgg unclassified q k)
         | Some cls \<Rightarrow>
             if \<not> truthy (code cls)
             then Inr (tree, addToAgg totals q k, addToAgg unclassified q k)
             else (case code cls of
                     JStr l3 \<Rightarrow>
                       (let l2 = take 3 l3; l1 = take 1 l3
                        in case obj_modify tree l1 empty_uf_node
                             (\<lambda>n1.
                                case obj_modify (children n1) l2 empty_uf_node
                                  (\<lambda>n2.
                                     case obj_modify (children n2) l3 emptyAgg
                                            (\<lambda>a. Inr (addToAgg a q k)) of
                                       Inl e \<Rightarrow> Inl e
                                     | Inr c3 \<Rightarrow>
                                         Inr (n2\<lparr>agg := addToAgg (agg n2) q k,
                                                 children := c3\<rparr>)) of
                                  Inl e \<Rightarrow> Inl e
                                | Inr c2 \<Rightarrow>
                                    Inr (n1\<lparr>agg := addToAgg (agg n1) q k,
                                            children := c2\<rparr>)) of
                             Inl e \<Rightarrow> Inl e
                           | Inr tree' \<Rightarrow> Inr (tree', addToAgg totals q k, unclassified))
                   | _ \<Rightarrow> Inl TypeError))"

fun uniformat_loop ::
  "(string \<rightharpoonup> classification) \<Rightarrow> (string \<times> element) list \<Rightarrow>
   aggregate uf_node uf_node obj \<times> aggregate \<times> aggregate \<Rightarrow>
   js_error + aggregate uf_node uf_node obj \<times> aggregate \<times> aggregate" where
  "uniformat_loop classifications [] acc = Inr acc"
| "uniformat_loop classifications (kd # rest) acc =
     (case uniformat_step classifications kd acc of
        Inl e \<Rightarrow> Inl e
      | Inr acc' \<Rightarrow> uniformat_loop classifications rest acc')"

text \<open>The result \<^verbatim>\<open>{ tree, totals, unclassified }\<close>, or the exception.\<close>

definition aggregateUniformat ::
  "(string \<times> element) list \<Rightarrow> (string \<rightharpoonup> classification) \<Rightarrow>
   js_error + aggregate uf_node uf_node obj \<times> aggregate \<times> aggregate" where
  "aggregateUniformat elementDataMap classifications =
     uniformat_loop classifications elementDataMap ([], emptyAgg, emptyAgg)"

section \<open>uniformat.js: taxonomy tables\<close>

definition UNIFORMAT_HIERARCHY ::
  "(string \<times> string \<times> (string \<times> string \<times> (string \<times> string) list) list) list" where
  "UNIFORMAT_HIERARCHY =
   [(''A'', ''Substructure'',
      [(''A10'', ''Foundations'',
          [(''A1010'', ''Standard Foundations''), (''A1020'', ''Special Foundations''),
           (''A1030'', ''Slab on Grade'')]),
       (''A20'', ''Basement Construction'',
          [(''A2010'', ''Basement Excavation''), (''A2020'', ''Basement Walls'')])]),
    (''B'', ''Shell'',
      [(''B10'', ''Superstructure'',
          [(''B1010'', ''Floor Construction''), (''B1020'', ''Roof Construction'')]),
       (''B20'', ''Exterior Enclosure'',
          [(''B2010'', ''Exterior Walls''), (''B2020'', ''Exterior Windows''),
           (''B2030'', ''Exterior Doors'')]),
       (''B30'', ''Roofing'',
          [(''B3010'', ''Roof Coverings''), (''B3020'', ''Roof Openings'')])]),
    (''C'', ''Interiors'',
      [(''C10'', ''Interior Construction'',
          [(''C1010'', ''Partitions''), (''C1020'', ''Interior Doors''),
           (''C1030'', ''Fittings'')]),
       (''C20'', ''Stairs'',
          [(''C2010'', ''Stair Construction''), (''C2020'', ''Stair Finishes'')]),
       (''C30'', ''Interior Finishes'',
          [(''C3010'', ''Wall Finishes''), (''C3020'', ''Floor Finishes''),
           (''C3030'', ''Ceiling Finishes'')])]),
    (''D'', ''Services'',
      [(''D10'', ''Conveying'',
          [(''D1010'', ''Elevators & Lifts''), (''D1020'', ''Escalators & Moving Walks''),
           (''D1090'', ''Other Conveying Systems'')]),
       (''D20'', ''Plumbing'',
          [(''D2010'', ''Plumbing Fixtures''), (''D2020'', ''Domestic Water Distribution''),
           (''D2030'', ''Sanitary Waste''), (''D2040'', ''Rain Water Drainage''),
           (''D2090'', ''Other Plumbing Systems'')]),
       (''D30'', ''HVAC'',
          [(''D3010'', ''Energy Supply''), (''D3020'', ''Heat Generating Systems''),
           (''D3030'', ''Cooling Generating Systems''), (''D3040'', ''Distribution Systems''),
           (''D3050'', ''Terminal & Package Units''),
           (''D3060'', ''Controls & Instrumentation''),
           (''D3070'', ''Systems Testing & Balancing''),
           (''D3090'', ''Other HVAC Systems & Equipment'')]),
       (''D40'', ''Fire Protection'',
          [(''D4010'', ''Sprinklers''), (''D4020'', ''Standpipes''),
           (''D4030'', ''Fire Protection Specialties''),
           (''D4090'', ''Other Fire Protection Systems'')]),
       (''D50'', ''Electrical'',
          [(''D5010'', ''Electrical Service & Distribution''),
           (''D5020'', ''Lighting and Branch Wiring''),
           (''D5030'', ''Communications & Security''),
           (''D5090'', ''Other Electrical Systems'')])]),
    (''E'', ''Equipment & Furnishings'',
      [(''E10'', ''Equipment'',
          [(''E1010'', ''Commercial Equipment''), (''E1020'', ''Institutional Equipment''),
           (''E1030'', ''Vehicular Equipment''), (''E1090'', ''Other Equipment'')]),
       (''E20'', ''Furnishings'',
          [(''E2010'', ''Fixed Furnishings''), (''E2020'', ''Movable Furnishings'')])]),
    (''F'', ''Special Construction & Demolition'',
      [(''F10'', ''Special Construction'',
          [(''F1010'', ''Special Structures''), (''F1020'', ''Integrated Construction''),
           (''F1030'', ''Special Construction Systems''), (''F1040'', ''Special Facilities''),
           (''F1050'', ''Special Controls & Instrumentation'')]),
       (''F20'', ''Selective Building Demolition'',
          [(''F2010'', ''Building Elements Demolition''),
           (''F2020'', ''Hazardous Components Abatement'')])])]"

text \<open>
  The flat table built by the nested loops over the hierarchy: every level-3 code with
  its label.
\<close>

definition L3_LABELS :: "jsval obj" where
  "L3_LABELS =
     concat (map (\<lambda>l1. concat (map (\<lambda>l2. map (\<lambda>l3. (fst l3, JStr (snd l3)))
                                              (snd (snd l2)))
                                 (snd (snd l1))))
                 UNIFORMAT_HIERARCHY)"

text \<open>The known leaf codes: the own keys of \<^verbatim>\<open>L3_LABELS\<close>.\<close>

definition known_leaf_code :: "string \<Rightarrow> bool" where
  "known_leaf_code c = (c \<in> fst ` set L3_LABELS)"

definition IFC_TYPE_DEFAULT_MAP :: "jsval obj" where
  "IFC_TYPE_DEFAULT_MAP =
     [(''IFCFOOTING'', JStr ''A1010''),
      (''IFCPILE'', JStr ''A1020''),
      (''IFCBEAM'', JStr ''B1010''),
      (''IFCCOLUMN'', JStr ''B1010''),
      (''IFCMEMBER'', JStr ''B1010''),
      (''IFCPLATE'', JStr ''B1010''),
      (''IFCSLAB'', JStr ''B1010''),
      (''IFCELEMENTASSEMBLY'', JStr ''B1010''),
      (''IFCWALL'', JStr ''B2010''),
      (''IFCWALLSTANDARDCASE'', JStr ''B2010''),
      (''IFCCURTAINWALL'', JStr ''B2010''),
      (''IFCWINDOW'', JStr ''B2020''),
      (''IFCDOOR'', JStr ''B2030''),
      (''IFCRAILING'', JStr ''C1030''),
      (''IFCSTAIR'', JStr ''C2010''),
      (''IFCSTAIRFLIGHT'', JStr ''C2010''),
      (''IFCRAMP'', JStr ''C2010''),
      (''IFCRAMPFLIGHT'', JStr ''C2010''),
      (''IFCBUILDINGELEMENTPROXY'', JNull)]"

section \<open>uniformat.js: the classification engine\<close>

text \<open>The viewer state read through \<^verbatim>\<open>getViewerState()\<close>.\<close>

record model =
  idx :: nat
  filename :: string

record viewer_state =
  elementDataMap :: "(string \<times> element) list"
  models :: "model list"

text \<open>
  The engine's state together with the browser storage it writes to. \<^verbatim>\<open>manualOverrides\<close>
  is a \<^verbatim>\<open>Map\<close>, kept in insertion order because \<^verbatim>\<open>saveOverrides\<close> iterates it; \<open>storage\<close>
  is the parsed content of the local-storage item \<^verbatim>\<open>uf_manual_overrides\<close> (\<open>None\<close> when
  there is no item) and \<open>writes\<close> counts the calls of \<^verbatim>\<open>localStorage.setItem\<close>.
  \<open>storage_accepts data\<close> tells whether the browser stores \<open>data\<close> when asked to: where it
  is false, \<^verbatim>\<open>setItem\<close> throws (quota exceeded, storage disabled).
\<close>

record uf_state =
  classifications :: "string \<rightharpoonup> classification"
  manualOverrides :: "(string \<times> string) list"
  storage :: "(string \<times> string) list option"
  writes :: nat
  storage_accepts :: "(string \<times> string) list \<Rightarrow> bool"

text \<open>\<^verbatim>\<open>Map.prototype.set\<close> and \<^verbatim>\<open>Map.prototype.delete\<close> on the insertion-ordered list.\<close>

definition map_set :: "(string \<times> 'v) list \<Rightarrow> string \<Rightarrow> 'v \<Rightarrow> (string \<times> 'v) list" where
  "map_set m k v = obj_set m k v"

definition map_delete :: "(string \<times> 'v) list \<Rightarrow> string \<Rightarrow> (string \<times> 'v) list" where
  "map_delete m k = filter (\<lambda>kv. fst kv \<noteq> k) m"

definition classificationKeys :: "string list" where
  "classificationKeys =
     [''uniformat'', ''uniformatii'', ''classification'', ''assembly code'',
      ''assemblycode'', ''assembly_code'', ''omniclass'', ''uniclass'',
      ''classificationcode'', ''classification code'']"

text \<open>
  White space and line terminators below 256: space, tab, line feed, vertical tab, form
  feed, carriage return and the no-break space.
\<close>

definition is_space :: "char \<Rightarrow> bool" where
  "is_space c =
     (c \<in> set [CHR 0x20, CHR 0x09, CHR 0x0A, CHR 0x0B, CHR 0x0C, CHR 0x0D, CHR 0xA0])"

definition trim :: "string \<Rightarrow> string" where
  "trim s = rev (dropWhile is_space (rev (dropWhile is_space s)))"

text \<open>\<^verbatim>\<open>s.replace(/[.\-\s]/g, '')\<close>.\<close>

definition strip_separators :: "string \<Rightarrow> string" where
  "strip_separators s =
     filter (\<lambda>c. c \<noteq> CHR ''.'' \<and> c \<noteq> CHR ''-'' \<and> \<not> is_space c) s"

definition is_digit :: "char \<Rightarrow> bool" where
  "is_digit c = (c \<in> set ''0123456789'')"

text \<open>The regular expression \<^verbatim>\<open>/^[A-F]\d{4}$/\<close>.\<close>

fun ufPattern :: "string \<Rightarrow> bool" where
  "ufPattern [a, b, c, d, e] =
     (a \<in> set ''ABCDEF'' \<and> is_digit b \<and> is_digit c \<and> is_digit d \<and> is_digit e)"
| "ufPattern s = False"

text \<open>The loop of \<^verbatim>\<open>detectFromProperties\<close> over the entries of the property bag.\<close>

fun detect_loop :: "(string \<times> propval) list \<Rightarrow> jsval" where
  "detect_loop [] = JNull"
| "detect_loop ((propKey, PStr propVal) # rest) =
     (if list_ex (\<lambda>ck. str_includes (toLowerCase propKey) ck) classificationKeys
      then (if ufPattern (strip_separators (trim propVal)) \<and>
               truthy (js_get L3_LABELS (strip_separators (trim propVal)))
            then JStr (strip_separators (trim propVal))
            else if ufPattern (strip_separators propVal) \<and>
                    truthy (js_get L3_LABELS (strip_separators propVal))
            then JStr (strip_separators propVal)
            else detect_loop rest)
      else detect_loop rest)"
| "detect_loop ((propKey, propVal) # rest) = detect_loop rest"

definition detectFromProperties :: "element \<Rightarrow> jsval" where
  "detectFromProperties data =
     (case props data of None \<Rightarrow> JNull | Some entries \<Rightarrow> detect_loop entries)"

text \<open>The loop of \<^verbatim>\<open>contextAwareMap\<close> that reads the \<^verbatim>\<open>IsExternal\<close> flag.\<close>

definition isExternal_step :: "string \<times> propval \<Rightarrow> bool option \<Rightarrow> bool option" where
  "isExternal_step kv isExternal =
     (if str_includes (toLowerCase (fst kv)) ''isexternal'' \<or>
         str_includes (toLowerCase (fst kv)) ''is_external''
      then (if snd kv = PBool True \<or> snd kv = PStr ''True'' \<or> snd kv = PStr ''.T.'' \<or>
               snd kv = PNum 1
            then Some True
            else if snd kv = PBool False \<or> snd kv = PStr ''False'' \<or>
                    snd kv = PStr ''.F.'' \<or> snd kv = PNum 0
            then Some False
            else isExternal)
      else isExternal)"

definition contextAwareMap :: "element \<Rightarrow> jsval" where
  "contextAwareMap data =
     (let type = ifcType data;
          entries = (case props data of None \<Rightarrow> [] | Some es \<Rightarrow> es);
          name = toLowerCase (name data);
          storey = toLowerCase (storey data);
          isExternal = fold isExternal_step entries None
      in if type = ''IFCWALL'' \<or> type = ''IFCWALLSTANDARDCASE'' then
           (if isExternal = Some False then JStr ''C1010''
            else if str_includes name ''partition'' \<or> str_includes name ''interior''
              then JStr ''C1010''
            else if str_includes storey ''basement'' \<or> str_includes storey ''b1'' \<or>
                    str_includes storey ''b2'' \<or> str_includes storey ''underground'' \<or>
                    str_includes storey ''sub''
              then JStr ''A2020''
            else JStr ''B2010'')
         else if type = ''IFCDOOR'' then
           (if isExternal = Some False then JStr ''C1020''
            else if str_includes name ''interior'' \<or> str_includes name ''int.''
              then JStr ''C1020''
            else JStr ''B2030'')
         else if type = ''IFCWINDOW'' then JStr ''B2020''
         else if type = ''IFCSLAB'' then
           (if str_includes name ''roof'' \<or> str_includes storey ''roof'' then JStr ''B1020''
            else if str_includes name ''grade'' \<or> str_includes name ''sog'' \<or>
                    str_includes name ''on grade''
              then JStr ''A1030''
            else if str_includes storey ''basement'' \<or> str_includes storey ''foundation''
              then JStr ''A1030''
            else JStr ''B1010'')
         else if type = ''IFCFOOTING'' then
           (if str_includes name ''pile'' \<or> str_includes name ''caisson'' \<or>
               str_includes name ''drilled''
            then JStr ''A1020''
            else JStr ''A1010'')
         else JNull)"

text \<open>\<^verbatim>\<open>x || null\<close>.\<close>

definition or_null :: "jsval \<Rightarrow> jsval" where
  "or_null x = (if truthy x then x else JNull)"

text \<open>
  The body of the loop of \<^verbatim>\<open>classifyAllElements\<close> for one \<^verbatim>\<open>[key, data]\<close>: the manual
  override first, then the three passes.
\<close>

definition classify_step ::
  "(string \<times> string) list \<Rightarrow> string \<times> element \<Rightarrow>
   (string \<rightharpoonup> classification) \<Rightarrow> (string \<rightharpoonup> classification)" where
  "classify_step overrides kd cls =
     (case map_of overrides (fst kd) of
        Some c \<Rightarrow> cls(fst kd \<mapsto> \<lparr>code = JStr c, source = ''manual'', confidence = 1\<rparr>)
      | None \<Rightarrow>
          (let fromProps = detectFromProperties (snd kd) in
           if truthy fromProps
           then cls(fst kd \<mapsto> \<lparr>code = fromProps, source = ''ifc-property'', confidence = 1\<rparr>)
           else
             (let contextCode = contextAwareMap (snd kd) in
              if truthy contextCode
              then cls(fst kd \<mapsto>
                     \<lparr>code = contextCode, source = ''auto-mapped'', confidence = 7 / 10\<rparr>)
              else
                (let defaultCode = or_null (js_get IFC_TYPE_DEFAULT_MAP (ifcType (snd kd))) in
                 if truthy defaultCode
                 then cls(fst kd \<mapsto>
                        \<lparr>code = defaultCode, source = ''auto-mapped'', confidence = 1 / 2\<rparr>)
                 else cls(fst kd \<mapsto> \<lparr>code = JNull, source = ''none'', confidence = 0\<rparr>)))))"

definition classifyAllElements :: "viewer_state \<Rightarrow> uf_state \<Rightarrow> uf_state" where
  "classifyAllElements vs st =
     st\<lparr>classifications :=
          fold (classify_step (manualOverrides st)) (elementDataMap vs) Map.empty\<rparr>"

section \<open>uniformat.js: stable keys and persistence\<close>

definition digit_chars :: string where
  "digit_chars = ''0123456789''"

definition digit_char :: "nat \<Rightarrow> char" where
  "digit_char d = digit_chars ! d"

text \<open>
  How a template literal prints a non-negative integer (below \<open>10^21\<close>, where JavaScript
  switches to exponent notation).
\<close>

fun show_nat :: "nat \<Rightarrow> string" where
  "show_nat n =
     (if n < 10 then [digit_char n] else show_nat (n div 10) @ [digit_char (n mod 10)])"

text \<open>The viewer's \<^verbatim>\<open>makeKey(modelIdx, expressID)\<close>.\<close>

definition makeKey :: "nat \<Rightarrow> nat \<Rightarrow> string" where
  "makeKey i expressID = show_nat i @ '':'' @ show_nat expressID"

definition hex_digits :: "(char \<times> nat) list" where
  "hex_digits =
     [(CHR ''0'', 0), (CHR ''1'', 1), (CHR ''2'', 2), (CHR ''3'', 3),
      (CHR ''4'', 4), (CHR ''5'', 5), (CHR ''6'', 6), (CHR ''7'', 7),
      (CHR ''8'', 8), (CHR ''9'', 9), (CHR ''a'', 10), (CHR ''b'', 11),
      (CHR ''c'', 12), (CHR ''d'', 13), (CHR ''e'', 14), (CHR ''f'', 15),
      (CHR ''A'', 10), (CHR ''B'', 11), (CHR ''C'', 12), (CHR ''D'', 13),
      (CHR ''E'', 14), (CHR ''F'', 15)]"

definition digit_value :: "nat \<Rightarrow> char \<Rightarrow> nat option" where
  "digit_value radix c =
     (case map_of hex_digits c of
        Some d \<Rightarrow> if d < radix then Some d else None
      | None \<Rightarrow> None)"

text \<open>
  \<^verbatim>\<open>parseInt(s)\<close> without a radix: leading white space, an optional sign, an optional
  \<^verbatim>\<open>0x\<close> prefix, then the longest run of digits; \<open>None\<close> is \<^verbatim>\<open>NaN\<close>. The value is exact
  (JavaScript rounds above \<open>2^53\<close>).
\<close>

definition parseInt :: "string \<Rightarrow> int option" where
  "parseInt s =
     (let s1 = dropWhile is_space s;
          sign = (case s1 of c # r \<Rightarrow> if c = CHR ''-'' then (-1::int) else 1 | [] \<Rightarrow> 1);
          s2 = (case s1 of c # r \<Rightarrow> if c = CHR ''-'' \<or> c = CHR ''+'' then r else s1
                         | [] \<Rightarrow> s1);
          hex = (startsWith s2 ''0x'' \<or> startsWith s2 ''0X'');
          radix = (if hex then 16 else 10);
          s3 = (if hex then drop 2 s2 else s2);
          ds = takeWhile (\<lambda>c. digit_value radix c \<noteq> None) s3
      in if ds = [] then None
         else Some (sign * int (foldl (\<lambda>acc c. acc * radix +
                                          (case digit_value radix c of Some d \<Rightarrow> d | None \<Rightarrow> 0))
                                  0 ds)))"

text \<open>\<^verbatim>\<open>models.find(p)\<close>: the first entry that satisfies \<open>p\<close>.\<close>

definition toStableKey :: "model list \<Rightarrow> string \<Rightarrow> string option" where
  "toStableKey ms compositeKey =
     (let parts = js_split CHR '':'' compositeKey;
          idxStr = first_part parts;
          eidStr = (case parts of a # b # rest \<Rightarrow> b | _ \<Rightarrow> ''undefined'');
          modelIdx = parseInt idxStr
      in case find (\<lambda>m. modelIdx = Some (int (idx m))) ms of
           None \<Rightarrow> None
         | Some m \<Rightarrow> Some (filename m @ '':'' @ eidStr))"

text \<open>\<^verbatim>\<open>s.lastIndexOf(c)\<close>, \<open>None\<close> for \<open>-1\<close>.\<close>

fun lastIndexOf :: "string \<Rightarrow> char \<Rightarrow> nat option" where
  "lastIndexOf [] c = None"
| "lastIndexOf (x # xs) c =
     (case lastIndexOf xs c of
        Some i \<Rightarrow> Some (Suc i)
      | None \<Rightarrow> if x = c then Some 0 else None)"

definition fromStableKey :: "model list \<Rightarrow> string \<Rightarrow> string option" where
  "fromStableKey ms stableKey =
     (case lastIndexOf stableKey CHR '':'' of
        None \<Rightarrow> None
      | Some colonIdx \<Rightarrow>
          (let fname = take colonIdx stableKey;
               eid = drop (colonIdx + 1) stableKey
           in case find (\<lambda>m. filename m = fname) ms of
                None \<Rightarrow> None
              | Some m \<Rightarrow> Some (show_nat (idx m) @ '':'' @ eid)))"

text \<open>
  The loop body of \<^verbatim>\<open>saveOverrides\<close>: \<^verbatim>\<open>if (sk) data[sk] = l3Code\<close>. A stable key holds a
  colon, so it is never the special key \<^verbatim>\<open>__proto__\<close>.
\<close>

definition save_step ::
  "model list \<Rightarrow> string \<times> string \<Rightarrow> (string \<times> string) list \<Rightarrow> (string \<times> string) list" where
  "save_step ms entry data =
     (case toStableKey ms (fst entry) of
        None \<Rightarrow> data
      | Some sk \<Rightarrow> if sk \<noteq> [] then obj_set data sk (snd entry) else data)"

text \<open>The object \<^verbatim>\<open>data\<close> that the loop of \<^verbatim>\<open>saveOverrides\<close> builds.\<close>

definition stable_entries :: "viewer_state \<Rightarrow> uf_state \<Rightarrow> (string \<times> string) list" where
  "stable_entries vs st = fold (save_step (models vs)) (manualOverrides st) []"

text \<open>
  \<^verbatim>\<open>saveOverrides\<close>: the object is built and handed to \<^verbatim>\<open>localStorage.setItem\<close>, once. When
  that call throws, the \<^verbatim>\<open>catch\<close> block logs a warning and the stored item stays as it was.
\<close>

definition saveOverrides :: "viewer_state \<Rightarrow> uf_state \<Rightarrow> uf_state" where
  "saveOverrides vs st =
     (let data = stable_entries vs st
      in if storage_accepts st data
         then st\<lparr>storage := Some data, writes := writes st + 1\<rparr>
         else st\<lparr>writes := writes st + 1\<rparr>)"

text \<open>
  The loop body of \<^verbatim>\<open>loadOverrides\<close> and of the import handler; the accumulator is the
  override map and the counter of loaded entries.
\<close>

definition load_step ::
  "model list \<Rightarrow> string \<times> string \<Rightarrow> (string \<times> string) list \<times> nat \<Rightarrow>
   (string \<times> string) list \<times> nat" where
  "load_step ms entry acc =
     (case fromStableKey ms (fst entry) of
        None \<Rightarrow> acc
      | Some ck \<Rightarrow>
          if ck \<noteq> [] \<and> truthy (js_get L3_LABELS (snd entry))
          then (map_set (fst acc) ck (snd entry), snd acc + 1)
          else acc)"

text \<open>\<^verbatim>\<open>loadOverrides\<close> returns the number of entries it loaded.\<close>

definition loadOverrides :: "viewer_state \<Rightarrow> uf_state \<Rightarrow> uf_state \<times> nat" where
  "loadOverrides vs st =
     (case storage st of
        None \<Rightarrow> (st, 0)
      | Some data \<Rightarrow>
          (let r = fold (load_step (models vs)) data (manualOverrides st, 0)
           in (st\<lparr>manualOverrides := fst r\<rparr>, snd r)))"

text \<open>
  The \<^verbatim>\<open>onload\<close> handler of \<^verbatim>\<open>importOverridesFromFile\<close>, given the entries of the parsed
  file.
\<close>

definition importOverrides ::
  "viewer_state \<Rightarrow> (string \<times> string) list \<Rightarrow> uf_state \<Rightarrow> uf_state" where
  "importOverrides vs data st =
     (let r = fold (load_step (models vs)) data (manualOverrides st, 0)
      in saveOverrides vs (classifyAllElements vs (st\<lparr>manualOverrides := fst r\<rparr>)))"

section \<open>uniformat.js: manual overrides\<close>

text \<open>
  \<^verbatim>\<open>setManualClassification(compositeKey, l3Code)\<close> with \<open>l3Code\<close> a string or \<^verbatim>\<open>null\<close>
  (\<open>None\<close>). The guard \<^verbatim>\<open>l3Code && L3_LABELS[l3Code]\<close> reads the label table the way every
  property read does, inherited members included.
\<close>

definition rederive :: "element \<Rightarrow> classification" where
  "rederive data =
     (let fromProps = detectFromProperties data in
      if truthy fromProps
      then \<lparr>code = fromProps, source = ''ifc-property'', confidence = 1\<rparr>
      else
        (let ctx = contextAwareMap data in
         if truthy ctx
         then \<lparr>code = ctx, source = ''auto-mapped'', confidence = 7 / 10\<rparr>
         else
           (let def = or_null (js_get IFC_TYPE_DEFAULT_MAP (ifcType data)) in
            \<lparr>code = def,
             source = (if truthy def then ''auto-mapped'' else ''none''),
             confidence = (if truthy def then 1 / 2 else 0)\<rparr>)))"

definition setManualClassification ::
  "viewer_state \<Rightarrow> string \<Rightarrow> string option \<Rightarrow> uf_state \<Rightarrow> uf_state" where
  "setManualClassification vs compositeKey l3Code st =
     saveOverrides vs
       (case l3Code of
          Some c \<Rightarrow>
            if c \<noteq> [] \<and> truthy (js_get L3_LABELS c)
            then st\<lparr>manualOverrides := map_set (manualOverrides st) compositeKey c,
                    classifications := (classifications st)(compositeKey \<mapsto>
                      \<lparr>code = JStr c, source = ''manual'', confidence = 1\<rparr>)\<rparr>
            else st
        | None \<Rightarrow>
            (case map_of (elementDataMap vs) compositeKey of
               Some data \<Rightarrow>
                 st\<lparr>manualOverrides := map_delete (manualOverrides st) compositeKey,
                    classifications := (classifications st)(compositeKey \<mapsto> rederive data)\<rparr>
             | None \<Rightarrow>
                 st\<lparr>manualOverrides := map_delete (manualOverrides st) compositeKey\<rparr>))"

text \<open>The loop body of \<^verbatim>\<open>bulkAssignByType\<close>.\<close>

definition bulk_step :: "string \<Rightarrow> string \<Rightarrow> string \<times> element \<Rightarrow> uf_state \<Rightarrow> uf_state" where
  "bulk_step ty l3Code kd st =
     (if ifcType (snd kd) = ty
      then (if l3Code \<noteq> [] \<and> truthy (js_get L3_LABELS l3Code)
            then st\<lparr>manualOverrides := map_set (manualOverrides st) (fst kd) l3Code,
                    classifications := (classifications st)(fst kd \<mapsto>
                      \<lparr>code = JStr l3Code, source = ''manual'', confidence = 1\<rparr>)\<rparr>
            else st)
      else st)"

definition bulkAssignByType :: "viewer_state \<Rightarrow> string \<Rightarrow> string \<Rightarrow> uf_state \<Rightarrow> uf_state" where
  "bulkAssignByType vs ty l3Code st =
     saveOverrides vs (fold (bulk_step ty l3Code) (elementDataMap vs) st)"


text \<open>A code field that is \<^verbatim>\<open>null\<close> or a known leaf code.\<close>

definition code_ok :: "jsval \<Rightarrow> bool" where
  "code_ok v = (v = JNull \<or> (\<exists>c. v = JStr c \<and> known_leaf_code c))"

text \<open>
  Every stored override is a known leaf code, and so is every code of a classification
  record that is not \<^verbatim>\<open>null\<close>.
\<close>

definition codes_known :: "uf_state \<Rightarrow> bool" where
  "codes_known st =
     (list_all (\<lambda>kv. known_leaf_code (snd kv)) (manualOverrides st) \<and>
      (\<forall>r \<in> ran (classifications st). code_ok (code r)))"

text \<open>The value of a run of decimal digits, as \<^verbatim>\<open>parseInt\<close> accumulates it.\<close>

definition decimal :: "string \<Rightarrow> nat" where
  "decimal ds = foldl (\<lambda>acc c. acc * 10 + (case digit_value 10 c of Some d \<Rightarrow> d | None \<Rightarrow> 0)) 0 ds"

section \<open>Auxiliary notions for the aggregation claims\<close>

text \<open>The member keys of an aggregate, as a multiset.\<close>

definition keys_of :: "aggregate \<Rightarrow> string multiset" where
  "keys_of a = mset (elements a)"

text \<open>The sum of a measure over the entries of an object.\<close>

definition obj_sum :: "('v \<Rightarrow> 'm::comm_monoid_add) \<Rightarrow> 'v obj \<Rightarrow> 'm" where
  "obj_sum m obj = sum_list (map (\<lambda>kv. m (snd kv)) obj)"

text \<open>
  The sum of a measure over the leaf aggregates beneath a storey node, a level-2 node
  and a level-1 node.
\<close>

definition storey_leaves :: "(aggregate \<Rightarrow> 'm::comm_monoid_add) \<Rightarrow> storey_node \<Rightarrow> 'm" where
  "storey_leaves f n = obj_sum f (types n)"

definition l2_leaves :: "(aggregate \<Rightarrow> 'm::comm_monoid_add) \<Rightarrow> aggregate uf_node \<Rightarrow> 'm" where
  "l2_leaves f n = obj_sum f (children n)"

definition l1_leaves ::
  "(aggregate \<Rightarrow> 'm::comm_monoid_add) \<Rightarrow> aggregate uf_node uf_node \<Rightarrow> 'm" where
  "l1_leaves f n = obj_sum (l2_leaves f) (children n)"

text \<open>
  A measure \<open>f\<close> of aggregates that is zero on the empty aggregate and grows by \<open>\<delta>\<close>
  when \<^verbatim>\<open>addToAgg\<close> adds the element \<open>k\<close> with quantities \<open>q\<close>.
\<close>

definition adds_to ::
  "(aggregate \<Rightarrow> 'm::comm_monoid_add) \<Rightarrow> (category \<Rightarrow> rat) \<Rightarrow> string \<Rightarrow> 'm \<Rightarrow> bool" where
  "adds_to f q k \<delta> = (f emptyAgg = 0 \<and> (\<forall>a. f (addToAgg a q k) = f a + \<delta>))"

text \<open>
  Conservation in spatial mode: every storey node carries the sum of its type leaves,
  and the grand totals the sum of all leaves.
\<close>

definition spatial_conserved ::
  "(aggregate \<Rightarrow> 'm::comm_monoid_add) \<Rightarrow> storey_node obj \<Rightarrow> aggregate \<Rightarrow> bool" where
  "spatial_conserved f tree totals =
     (list_all (\<lambda>kv. f (storey_agg (snd kv)) = storey_leaves f (snd kv)) tree \<and>
      f totals = obj_sum (storey_leaves f) tree)"

text \<open>
  Conservation in classification mode: every level-1 node carries the sum of the leaves
  beneath it, every level-2 node the sum of its leaves, and the grand totals the sum of
  all leaves plus the unclassified bucket.
\<close>

definition uniformat_conserved ::
  "(aggregate \<Rightarrow> 'm::comm_monoid_add) \<Rightarrow> aggregate uf_node uf_node obj \<Rightarrow>
   aggregate \<Rightarrow> aggregate \<Rightarrow> bool" where
  "uniformat_conserved f tree totals unclassified =
     (list_all (\<lambda>kv. f (agg (snd kv)) = l1_leaves f (snd kv) \<and>
                  list_all (\<lambda>kv2. f (agg (snd kv2)) = l2_leaves f (snd kv2))
                    (children (snd kv))) tree \<and>
      f totals = obj_sum (l1_leaves f) tree + f unclassified)"

text \<open>
  What an iteration of either loop does to each aggregate on the element's path:
  \<^verbatim>\<open>addToAgg(agg, q, key)\<close> with the quantities of the element.
\<close>

definition add_element :: "string \<times> element \<Rightarrow> aggregate \<Rightarrow> aggregate" where
  "add_element kd a = addToAgg a (extractQuantities (props (snd kd))) (fst kd)"

text \<open>
  The aggregate that \<^verbatim>\<open>addToAgg\<close> builds from the empty one when it is given, in the order
  of the element map, exactly the elements whose key is among \<open>ks\<close>; and the aggregates
  that are built in this way from their own member keys.
\<close>

definition member_total :: "(string \<times> element) list \<Rightarrow> string list \<Rightarrow> aggregate" where
  "member_total es ks = fold add_element (filter (\<lambda>kd. fst kd \<in> set ks) es) emptyAgg"

definition sums_members :: "(string \<times> element) list \<Rightarrow> aggregate \<Rightarrow> bool" where
  "sums_members es a = (a = member_total es (elements a))"

text \<open>
  A property of aggregates holds of every aggregate of a result: the grand totals (and the
  unclassified bucket), every node and every leaf.
\<close>

definition storey_all :: "(aggregate \<Rightarrow> bool) \<Rightarrow> storey_node \<Rightarrow> bool" where
  "storey_all P n = (P (storey_agg n) \<and> list_all (\<lambda>kv. P (snd kv)) (types n))"

definition spatial_all :: "(aggregate \<Rightarrow> bool) \<Rightarrow> storey_node obj \<Rightarrow> aggregate \<Rightarrow> bool" where
  "spatial_all P tree totals = (P totals \<and> list_all (\<lambda>kv. storey_all P (snd kv)) tree)"

definition l2_all :: "(aggregate \<Rightarrow> bool) \<Rightarrow> aggregate uf_node \<Rightarrow> bool" where
  "l2_all P n = (P (agg n) \<and> list_all (\<lambda>kv. P (snd kv)) (children n))"

definition l1_all :: "(aggregate \<Rightarrow> bool) \<Rightarrow> aggregate uf_node uf_node \<Rightarrow> bool" where
  "l1_all P n = (P (agg n) \<and> list_all (\<lambda>kv. l2_all P (snd kv)) (children n))"

definition uniformat_all ::
  "(aggregate \<Rightarrow> bool) \<Rightarrow> aggregate uf_node uf_node obj \<Rightarrow> aggregate \<Rightarrow> aggregate \<Rightarrow> bool" where
  "uniformat_all P tree totals unclassified =
     (P totals \<and> P unclassified \<and> list_all (\<lambda>kv. l1_all P (snd kv)) tree)"

text \<open>
  The running sum that \<^verbatim>\<open>addToAgg\<close> keeps in a unit column with conversion factor \<open>c\<close>, over
  the quantities \<open>qs\<close>; and a value that lies within the rounding of \<open>n\<close> such additions
  from the exact value \<open>e\<close>.
\<close>

definition running_sum :: "rat \<Rightarrow> rat list \<Rightarrow> rat" where
  "running_sum c qs = fold (\<lambda>q s. fadd s (fmul q c)) qs 0"

definition within_rounding :: "rat \<Rightarrow> nat \<Rightarrow> rat \<Rightarrow> bool" where
  "within_rounding x n e =
     ((1 - unit_roundoff) ^ (n + 2) * e \<le> x \<and> x \<le> (1 + unit_roundoff) ^ (n + 2) * e)"

text \<open>
  The three unit columns that hold floating-point sums: the column of an aggregate, the
  quantity it measures, the conversion factor as the code holds it (a double) and as the
  source text writes it (a decimal fraction).
\<close>

datatype column = SF | LF | CY

fun col :: "column \<Rightarrow> aggregate \<Rightarrow> rat" where
  "col SF a = sf a"
| "col LF a = lf a"
| "col CY a = cy a"

fun measured :: "column \<Rightarrow> category" where
  "measured SF = Area"
| "measured LF = Length"
| "measured CY = Volume"

fun factor :: "column \<Rightarrow> rat" where
  "factor SF = M2_TO_SF"
| "factor LF = M_TO_LF"
| "factor CY = M3_TO_CY"

fun decimal_factor :: "column \<Rightarrow> rat" where
  "decimal_factor SF = 107639 / 10000"
| "decimal_factor LF = 328084 / 100000"
| "decimal_factor CY = 130795 / 100000"

text \<open>
  The quantity of the element with key \<open>k\<close>, and the exact converted total of the elements
  with the keys \<open>M\<close>: what a column would hold in arithmetic without rounding.
\<close>

definition key_quantity :: "column \<Rightarrow> (string \<times> element) list \<Rightarrow> string \<Rightarrow> rat" where
  "key_quantity c es k =
     (case map_of es k of
        None \<Rightarrow> 0
      | Some d \<Rightarrow> extractQuantities (props d) (measured c))"

definition exact_total :: "column \<Rightarrow> (string \<times> element) list \<Rightarrow> string multiset \<Rightarrow> rat" where
  "exact_total c es M = decimal_factor c * (\<Sum>k \<in># M. key_quantity c es k)"

text \<open>Every quantity of every element is zero or in the normal range of doubles.\<close>

definition normal_quantities :: "(string \<times> element) list \<Rightarrow> bool" where
  "normal_quantities es =
     list_all (\<lambda>kd. list_all (\<lambda>cat. extractQuantities (props (snd kd)) cat = 0 \<or>
                                   min_normal \<le> extractQuantities (props (snd kd)) cat)
                       [Area, Length, Volume]) es"

text \<open>
  The width of the interval in which \<open>n\<close> roundings keep a sum, relative to the exact
  value; and an aggregate whose three unit columns differ from the given sums of leaves by
  no more than this share of the exact total of its members.
\<close>

definition rounding_spread :: "nat \<Rightarrow> rat" where
  "rounding_spread n = (1 + unit_roundoff) ^ (n + 2) - (1 - unit_roundoff) ^ (n + 2)"

definition near_leaves ::
  "(string \<times> element) list \<Rightarrow> aggregate \<Rightarrow> (column \<Rightarrow> rat) \<Rightarrow> bool" where
  "near_leaves es a leaves =
     list_all (\<lambda>c. \<bar>col c a - leaves c\<bar> \<le> rounding_spread (ea a) * exact_total c es (keys_of a))
       [SF, LF, CY]"

text \<open>
  Conservation up to rounding: the counterparts of \<open>spatial_conserved\<close> and
  \<open>uniformat_conserved\<close> for the area, length and volume columns.
\<close>

definition spatial_near ::
  "(string \<times> element) list \<Rightarrow> storey_node obj \<Rightarrow> aggregate \<Rightarrow> bool" where
  "spatial_near es tree totals =
     (list_all (\<lambda>kv. near_leaves es (storey_agg (snd kv))
                        (\<lambda>c. storey_leaves (col c) (snd kv))) tree \<and>
      near_leaves es totals (\<lambda>c. obj_sum (storey_leaves (col c)) tree))"

definition uniformat_near ::
  "(string \<times> element) list \<Rightarrow> aggregate uf_node uf_node obj \<Rightarrow> aggregate \<Rightarrow> aggregate \<Rightarrow>
   bool" where
  "uniformat_near es tree totals unclassified =
     (list_all (\<lambda>kv. near_leaves es (agg (snd kv)) (\<lambda>c. l1_leaves (col c) (snd kv)) \<and>
                  list_all (\<lambda>kv2. near_leaves es (agg (snd kv2))
                                     (\<lambda>c. l2_leaves (col c) (snd kv2)))
                    (children (snd kv))) tree \<and>
      near_leaves es totals (\<lambda>c. obj_sum (l1_leaves (col c)) tree + col c unclassified))"

text \<open>The keys under which \<^verbatim>\<open>aggregateSpatial\<close> files an element.\<close>

definition storey_key :: "element \<Rightarrow> string" where
  "storey_key d = (if storey d = [] then ''Unassigned'' else storey d)"

definition type_key :: "element \<Rightarrow> string" where
  "type_key d = (if ifcType d = [] then ''UNKNOWN'' else ifcType d)"

section \<open>Auxiliary notions for the quantity claims\<close>

text \<open>
  The last dot-separated segment of the lower-cased key holds one of the dimension
  keywords.
\<close>

definition has_dimension_keyword :: "string \<Rightarrow> bool" where
  "has_dimension_keyword k =
     list_ex (\<lambda>kw. str_includes (last_part (js_split CHR ''.'' (toLowerCase k))) kw)
       QUANTITY_NAME_KEYWORDS"

text \<open>The candidates one entry of the property bag contributes to a category.\<close>

fun candidate_of :: "category \<Rightarrow> string \<times> propval \<Rightarrow> candidate list" where
  "candidate_of cat (k, PNum x) =
     (if classifyQuantityKey k = Some cat \<and> 0 < x
      then [\<lparr>value = x, isGross = str_includes (toLowerCase k) ''gross'', key = k\<rparr>]
      else [])"
| "candidate_of cat (k, v) = []"

text \<open>
  The specification's wording, for comparison with the code. The property name is what
  follows the first dot of the key. A pair is a candidate when the set name starts with
  a known container prefix, or the property name holds a dimension keyword and the value
  is a number above zero.
\<close>

definition property_name :: "string \<Rightarrow> string" where
  "property_name k = drop 1 (dropWhile (\<lambda>c. c \<noteq> CHR ''.'') (toLowerCase k))"

definition claimed_candidate :: "string \<Rightarrow> propval \<Rightarrow> bool" where
  "claimed_candidate k v =
     (list_ex (\<lambda>p. startsWith (takeWhile (\<lambda>c. c \<noteq> CHR ''.'') (toLowerCase k)) p)
        QTO_SET_NAMES \<or>
      (list_ex (\<lambda>kw. str_includes (property_name k) kw) QUANTITY_NAME_KEYWORDS \<and>
       (case v of PNum x \<Rightarrow> 0 < x | _ \<Rightarrow> False)))"

text \<open>
  The specification's gross rule, for comparison with the code: among the candidates of
  a category, those whose property name holds \<^verbatim>\<open>gross\<close> are preferred.
\<close>

definition claimed_extractQuantities :: "(string \<times> propval) list \<Rightarrow> category \<Rightarrow> rat" where
  "claimed_extractQuantities entries cat =
     (let cands = concat (map (candidate_of cat) entries);
          gross = filter (\<lambda>c. str_includes (property_name (key c)) ''gross'') cands
      in case gross of
           g # gs \<Rightarrow> Math_max (value g) (map value gs)
         | [] \<Rightarrow> (case cands of [] \<Rightarrow> 0 | v # vs \<Rightarrow> Math_max (value v) (map value vs)))"

section \<open>Sample data\<close>

text \<open>A small loaded model, used to run the functions on concrete inputs.\<close>

definition sample_wall :: element where
  "sample_wall =
     \<lparr>ifcType = ''IFCWALL'', name = ''Basic Wall'', storey = ''Level 1'',
      props = Some [(''Pset_WallCommon.IsExternal'', PBool False),
                    (''BaseQuantities.NetVolume'', PNum (5 / 2)),
                    (''BaseQuantities.GrossVolume'', PNum 3)],
      modelIdx = 3\<rparr>"

definition sample_door :: element where
  "sample_door =
     \<lparr>ifcType = ''IFCDOOR'', name = ''Door'', storey = ''Level 1'',
      props = Some [(''Dimensions.Area'', PNum 12)],
      modelIdx = 3\<rparr>"

definition sample_proxy :: element where
  "sample_proxy =
     \<lparr>ifcType = ''IFCBUILDINGELEMENTPROXY'', name = ''Unnamed'', storey = [],
      props = None, modelIdx = 3\<rparr>"

definition sample_viewer :: viewer_state where
  "sample_viewer =
     \<lparr>elementDataMap =
        [(''3:42'', sample_wall), (''3:43'', sample_door), (''3:44'', sample_proxy)],
      models = [\<lparr>idx = 3, filename = ''F''\<rparr>]\<rparr>"

definition initial_state :: uf_state where
  "initial_state =
     \<lparr>classifications = Map.empty, manualOverrides = [], storage = None, writes = 0,
      storage_accepts = (\<lambda>data. True)\<rparr>"


text \<open>Two loaded models that came from files of the same name.\<close>

definition same_name_models :: "model list" where
  "same_name_models = [\<lparr>idx = 3, filename = ''F''\<rparr>, \<lparr>idx = 7, filename = ''F''\<rparr>]"

text \<open>
  Three elements of one storey with net areas of 1, 2 and 8 square metres, a door between
  two walls; and what \<^verbatim>\<open>aggregateSpatial\<close> returns for them. The areas in square feet are
  the doubles \<^verbatim>\<open>118.40289999999999\<close> (storey and totals), \<^verbatim>\<open>96.8751\<close> (walls) and \<^verbatim>\<open>21.5278\<close>
  (doors).
\<close>

definition area_element :: "string \<Rightarrow> rat \<Rightarrow> element" where
  "area_element ty x =
     \<lparr>ifcType = ty, name = [], storey = ''Level 1'',
      props = Some [(''BaseQuantities.NetArea'', PNum x)], modelIdx = 3\<rparr>"

definition rounding_sample :: "(string \<times> element) list" where
  "rounding_sample =
     [(''3:1'', area_element ''IFCWALL'' 1), (''3:2'', area_element ''IFCDOOR'' 2),
      (''3:3'', area_element ''IFCWALL'' 8)]"

definition rounding_result :: "storey_node obj \<times> aggregate" where
  "rounding_result =
     ([(''Level 1'',
        \<lparr>storey_agg = \<lparr>ea = 3, sf = 2082965844998383 / 17592186044416, lf = 0, cy = 0,
                        elements = [''3:1'', ''3:2'', ''3:3'']\<rparr>,
         types = [(''IFCWALL'', \<lparr>ea = 2, sf = 3408489564542809 / 35184372088832, lf = 0,
                                 cy = 0, elements = [''3:1'', ''3:3'']\<rparr>),
                  (''IFCDOOR'', \<lparr>ea = 1, sf = 1514884250907915 / 70368744177664, lf = 0,
                                 cy = 0, elements = [''3:2'']\<rparr>)]\<rparr>)],
      \<lparr>ea = 3, sf = 2082965844998383 / 17592186044416, lf = 0, cy = 0,
        elements = [''3:1'', ''3:2'', ''3:3'']\<rparr>)"

text \<open>Classifications of the sample elements, and the two aggregation results.\<close>

definition sample_classifications :: "string \<rightharpoonup> classification" where
  "sample_classifications =
     [''3:42'' \<mapsto> \<lparr>code = JStr ''C1010'', source = ''auto-mapped'', confidence = 7 / 10\<rparr>,
      ''3:43'' \<mapsto> \<lparr>code = JStr ''B2030'', source = ''auto-mapped'', confidence = 7 / 10\<rparr>,
      ''3:44'' \<mapsto> \<lparr>code = JNull, source = ''none'', confidence = 0\<rparr>]"

definition sample_spatial :: "storey_node obj \<times> aggregate" where
  "sample_spatial =
     ([(''Level 1'',
        \<lparr>storey_agg = \<lparr>ea = 2, sf = fmul 12 M2_TO_SF, lf = 0, cy = fmul 3 M3_TO_CY,
                        elements = [''3:42'', ''3:43'']\<rparr>,
         types = [(''IFCWALL'', \<lparr>ea = 1, sf = 0, lf = 0, cy = fmul 3 M3_TO_CY,
                                 elements = [''3:42'']\<rparr>),
                  (''IFCDOOR'', \<lparr>ea = 1, sf = fmul 12 M2_TO_SF, lf = 0, cy = 0,
                                 elements = [''3:43'']\<rparr>)]\<rparr>),
       (''Unassigned'',
        \<lparr>storey_agg = \<lparr>ea = 1, sf = 0, lf = 0, cy = 0, elements = [''3:44'']\<rparr>,
         types = [(''IFCBUILDINGELEMENTPROXY'',
                   \<lparr>ea = 1, sf = 0, lf = 0, cy = 0, elements = [''3:44'']\<rparr>)]\<rparr>)],
      \<lparr>ea = 3, sf = fmul 12 M2_TO_SF, lf = 0, cy = fmul 3 M3_TO_CY,
        elements = [''3:42'', ''3:43'', ''3:44'']\<rparr>)"

definition sample_uniformat ::
  "aggregate uf_node uf_node obj \<times> aggregate \<times> aggregate" where
  "sample_uniformat =
     ([(''C'',
        \<lparr>agg = \<lparr>ea = 1, sf = 0, lf = 0, cy = fmul 3 M3_TO_CY, elements = [''3:42'']\<rparr>,
         children =
           [(''C10'',
             \<lparr>agg = \<lparr>ea = 1, sf = 0, lf = 0, cy = fmul 3 M3_TO_CY, elements = [''3:42'']\<rparr>,
              children =
                [(''C1010'', \<lparr>ea = 1, sf = 0, lf = 0, cy = fmul 3 M3_TO_CY,
                                elements = [''3:42'']\<rparr>)]\<rparr>)]\<rparr>),
       (''B'',
        \<lparr>agg = \<lparr>ea = 1, sf = fmul 12 M2_TO_SF, lf = 0, cy = 0, elements = [''3:43'']\<rparr>,
         children =
           [(''B20'',
             \<lparr>agg = \<lparr>ea = 1, sf = fmul 12 M2_TO_SF, lf = 0, cy = 0, elements = [''3:43'']\<rparr>,
              children =
                [(''B2030'', \<lparr>ea = 1, sf = fmul 12 M2_TO_SF, lf = 0, cy = 0,
                                elements = [''3:43'']\<rparr>)]\<rparr>)]\<rparr>)],
      \<lparr>ea = 3, sf = fmul 12 M2_TO_SF, lf = 0, cy = fmul 3 M3_TO_CY,
        elements = [''3:42'', ''3:43'', ''3:44'']\<rparr>,
      \<lparr>ea = 1, sf = 0, lf = 0, cy = 0, elements = [''3:44'']\<rparr>)"

section \<open>Rounding to doubles\<close>

declare bit_length.simps [simp del]

lemma pow2_powi: "pow2 e = 2 powi e"
  by (simp add: pow2_def power_int_def field_simps)

lemma pow2_pos [simp]: "0 < pow2 e"
  by (simp add: pow2_powi)

lemma pow2_nonneg [simp]: "0 \<le> pow2 e"
  by (simp add: pow2_powi)

lemma pow2_add: "pow2 (a + b) = pow2 a * pow2 b"
  by (simp add: pow2_powi power_int_add)

lemma pow2_diff: "pow2 (a - b) = pow2 a / pow2 b"
  by (simp add: pow2_powi power_int_diff)

lemma pow2_nat: "pow2 (int n) = 2 ^ n"
  by (simp add: pow2_def)

lemma pow2_mono: "a \<le> b \<Longrightarrow> pow2 a \<le> pow2 b"
  by (simp add: pow2_powi power_int_increasing)

lemma bit_length_bounds:
  "0 < n \<Longrightarrow> 1 \<le> bit_length n \<and> 2 ^ nat (bit_length n - 1) \<le> n \<and> n < 2 ^ nat (bit_length n)"
proof (induction n rule: bit_length.induct)
  case (1 n)
  show ?case
  proof (cases "n = 1")
    case True
    then show ?thesis by (simp add: bit_length.simps [of 1] bit_length.simps [of 0])
  next
    case False
    with 1 have h: "0 < n div 2" by simp
    have ih: "1 \<le> bit_length (n div 2)" "2 ^ nat (bit_length (n div 2) - 1) \<le> n div 2"
      "n div 2 < 2 ^ nat (bit_length (n div 2))"
      using 1 h by simp_all
    have b: "bit_length n = 1 + bit_length (n div 2)"
      using 1(2) by (simp add: bit_length.simps [of n])
    have n1: "nat (bit_length n - 1) = Suc (nat (bit_length (n div 2) - 1))"
      using ih(1) b by simp
    have n2: "nat (bit_length n) = Suc (nat (bit_length (n div 2)))"
      using ih(1) b by simp
    have "2 * 2 ^ nat (bit_length (n div 2) - 1) \<le> n"
      using ih(2) by linarith
    moreover have "n < 2 * 2 ^ nat (bit_length (n div 2))"
      using ih(3) by linarith
    ultimately show ?thesis using ih(1) b unfolding n1 n2 by simp
  qed
qed

lemma binary_exponent_bounds:
  assumes "x \<noteq> 0"
  shows "pow2 (binary_exponent x) \<le> \<bar>x\<bar>" and "\<bar>x\<bar> < pow2 (binary_exponent x + 1)"
proof -
  obtain a b where q: "quotient_of x = (a, b)" by (cases "quotient_of x")
  have b: "0 < b" using quotient_of_denom_pos [OF q] .
  have x: "x = of_int a / of_int b" using quotient_of_div [OF q] .
  have a: "a \<noteq> 0" using assms x by auto
  then have a': "0 < \<bar>a\<bar>" by simp
  define la where "la = bit_length \<bar>a\<bar>"
  define lb where "lb = bit_length b"
  note ba = bit_length_bounds [OF a', folded la_def]
  note bb = bit_length_bounds [OF b, folded lb_def]
  have absx: "\<bar>x\<bar> = of_int \<bar>a\<bar> / of_int b"
    using b by (simp add: x)
  have A1: "pow2 (la - 1) \<le> of_int \<bar>a\<bar>"
  proof -
    have "(2::rat) ^ nat (la - 1) \<le> of_int \<bar>a\<bar>"
      using ba by (metis of_int_le_iff of_int_numeral of_int_power)
    then show ?thesis using ba by (simp add: pow2_def)
  qed
  have A2: "of_int \<bar>a\<bar> < pow2 la"
  proof -
    have "of_int \<bar>a\<bar> < (2::rat) ^ nat la"
      using ba by (metis of_int_less_iff of_int_numeral of_int_power)
    then show ?thesis using ba by (simp add: pow2_def)
  qed
  have B1: "pow2 (lb - 1) \<le> of_int b"
  proof -
    have "(2::rat) ^ nat (lb - 1) \<le> of_int b"
      using bb by (metis of_int_le_iff of_int_numeral of_int_power)
    then show ?thesis using bb by (simp add: pow2_def)
  qed
  have B2: "of_int b < pow2 lb"
  proof -
    have "of_int b < (2::rat) ^ nat lb"
      using bb by (metis of_int_less_iff of_int_numeral of_int_power)
    then show ?thesis using bb by (simp add: pow2_def)
  qed
  have bpos: "(0::rat) < of_int b" using b by simp
  have lower: "pow2 (la - lb - 1) \<le> \<bar>x\<bar>"
  proof -
    have "pow2 (la - lb - 1) = pow2 (la - 1) / pow2 lb"
      using pow2_diff [of "la - 1" lb] by (simp add: algebra_simps)
    also have "\<dots> \<le> of_int \<bar>a\<bar> / pow2 lb"
      by (rule divide_right_mono [OF A1]) simp
    also have "\<dots> \<le> of_int \<bar>a\<bar> / of_int b"
      using B2 bpos by (intro divide_left_mono) (simp_all add: less_imp_le)
    finally show ?thesis by (simp add: absx)
  qed
  have upper: "\<bar>x\<bar> < pow2 (la - lb + 1)"
  proof -
    have "\<bar>x\<bar> = of_int \<bar>a\<bar> / of_int b" by (rule absx)
    also have "\<dots> < pow2 la / of_int b"
      by (rule divide_strict_right_mono [OF A2 bpos])
    also have "\<dots> \<le> pow2 la / pow2 (lb - 1)"
      using B1 bpos by (intro divide_left_mono) (simp_all add: less_imp_le)
    also have "\<dots> = pow2 (la - lb + 1)"
      using pow2_diff [of la "lb - 1"] by (simp add: algebra_simps)
    finally show ?thesis .
  qed
  have e: "binary_exponent x = (if pow2 (la - lb) \<le> \<bar>x\<bar> then la - lb else la - lb - 1)"
    by (simp add: binary_exponent_def q la_def lb_def Let_def)
  show "pow2 (binary_exponent x) \<le> \<bar>x\<bar>"
    using lower by (simp add: e)
  show "\<bar>x\<bar> < pow2 (binary_exponent x + 1)"
    using upper by (auto simp: e not_le)
qed

lemma round_half_even_near: "\<bar>of_int (round_half_even r) - r\<bar> \<le> 1 / 2"
proof -
  have "of_int \<lfloor>r\<rfloor> \<le> r" "r < of_int \<lfloor>r\<rfloor> + 1" by linarith+
  then show ?thesis
    by (auto simp: round_half_even_def Let_def abs_le_iff)
qed

lemma round_half_even_floor: "\<lfloor>r\<rfloor> \<le> round_half_even r"
  by (simp add: round_half_even_def Let_def)

lemma min_normal_pos: "0 < min_normal"
  unfolding min_normal_def by (rule pow2_pos)

lemma normal_exponent:
  assumes "min_normal \<le> \<bar>x\<bar>"
  shows "max (binary_exponent x) (- 1022) = binary_exponent x"
proof -
  have x: "x \<noteq> 0" using assms min_normal_pos by auto
  have "\<not> binary_exponent x + 1 \<le> - 1022"
  proof
    assume "binary_exponent x + 1 \<le> - 1022"
    then have "pow2 (binary_exponent x + 1) \<le> pow2 (- 1022)" by (rule pow2_mono)
    then show False
      using binary_exponent_bounds(2) [OF x] assms by (simp add: min_normal_def)
  qed
  then show ?thesis by simp
qed

lemma round_double_error:
  assumes "x = 0 \<or> min_normal \<le> \<bar>x\<bar>"
  shows "\<bar>round_double x - x\<bar> \<le> unit_roundoff * \<bar>x\<bar>"
proof (cases "x = 0")
  case True
  then show ?thesis by (simp add: round_double_def)
next
  case False
  then have n: "min_normal \<le> \<bar>x\<bar>" using assms by simp
  define e where "e = binary_exponent x"
  define q where "q = pow2 (e - 52)"
  have qpos: "0 < q" by (simp add: q_def)
  have r: "round_double x = of_int (round_half_even (x / q)) * q"
    using False normal_exponent [OF n] by (simp add: round_double_def Let_def q_def e_def)
  have "round_double x - x = (of_int (round_half_even (x / q)) - x / q) * q"
    using qpos by (simp add: r field_simps)
  then have "\<bar>round_double x - x\<bar> = \<bar>of_int (round_half_even (x / q)) - x / q\<bar> * q"
    using qpos by (simp add: abs_mult)
  also have "\<dots> \<le> 1 / 2 * q"
    using round_half_even_near [of "x / q"] qpos by (intro mult_right_mono) simp_all
  also have "\<dots> = pow2 e / 2 ^ 53"
    using pow2_diff [of e 52] by (simp add: q_def pow2_def)
  also have "\<dots> \<le> \<bar>x\<bar> / 2 ^ 53"
    using binary_exponent_bounds(1) [OF False] by (simp add: e_def divide_right_mono)
  finally show ?thesis by (simp add: unit_roundoff_def)
qed

lemma round_double_interval:
  assumes "x = 0 \<or> min_normal \<le> x"
  shows "(1 - unit_roundoff) * x \<le> round_double x"
    and "round_double x \<le> (1 + unit_roundoff) * x"
proof -
  have "0 < min_normal" by (rule min_normal_pos)
  then have "0 \<le> x" "x = 0 \<or> min_normal \<le> \<bar>x\<bar>" using assms by auto
  then show "(1 - unit_roundoff) * x \<le> round_double x"
    and "round_double x \<le> (1 + unit_roundoff) * x"
    using round_double_error [of x] by (simp_all add: abs_le_iff algebra_simps)
qed

lemma round_double_normal:
  assumes "min_normal \<le> x"
  shows "min_normal \<le> round_double x"
proof -
  have mpos: "0 < min_normal" by (rule min_normal_pos)
  then have x: "x \<noteq> 0" "0 < x" "min_normal \<le> \<bar>x\<bar>" using assms by auto
  define e where "e = binary_exponent x"
  define q where "q = pow2 (e - 52)"
  have qpos: "0 < q" by (simp add: q_def)
  have e: "- 1022 \<le> e" using normal_exponent [OF x(3)] by (simp add: e_def)
  have r: "round_double x = of_int (round_half_even (x / q)) * q"
    using x(1) normal_exponent [OF x(3)] by (simp add: round_double_def Let_def q_def e_def)
  have pe: "pow2 e = 2 ^ 52 * q"
    using pow2_diff [of e 52] by (simp add: q_def pow2_def)
  have "pow2 e \<le> x" using binary_exponent_bounds(1) [OF x(1)] x(2) by (simp add: e_def)
  then have "2 ^ 52 \<le> x / q" using qpos by (simp add: pe pos_le_divide_eq)
  then have "(2::int) ^ 52 \<le> \<lfloor>x / q\<rfloor>" by (simp add: le_floor_iff)
  then have "(2::int) ^ 52 \<le> round_half_even (x / q)"
    using round_half_even_floor [of "x / q"] by linarith
  then have "(2::rat) ^ 52 \<le> of_int (round_half_even (x / q))"
    by (metis of_int_le_iff of_int_numeral of_int_power)
  then have "pow2 e \<le> round_double x"
    unfolding r pe using qpos by (intro mult_right_mono) simp_all
  moreover have "min_normal \<le> pow2 e"
    unfolding min_normal_def using e by (rule pow2_mono)
  ultimately show ?thesis by simp
qed

lemma round_double_zero [simp]: "round_double 0 = 0"
  by (simp add: round_double_def)

lemma unit_roundoff_range: "0 < unit_roundoff" "unit_roundoff < 1"
  by (simp_all add: unit_roundoff_def)

lemma running_sum_snoc: "running_sum c (qs @ [q]) = fadd (running_sum c qs) (fmul q c)"
  by (simp add: running_sum_def)

lemma running_sum_interval:
  assumes "\<forall>q \<in> set qs. q = 0 \<or> (0 < q \<and> min_normal \<le> q * c)"
    and "0 \<le> C" and "(1 - unit_roundoff) * C \<le> c" and "c \<le> (1 + unit_roundoff) * C"
  shows "(running_sum c qs = 0 \<or> min_normal \<le> running_sum c qs) \<and>
         within_rounding (running_sum c qs) (length qs) (C * sum_list qs)"
  using assms(1)
proof (induction qs rule: rev_induct)
  case Nil
  then show ?case by (simp add: running_sum_def within_rounding_def)
next
  case (snoc q qs)
  define u where "u = unit_roundoff"
  define s where "s = running_sum c qs"
  define t where "t = fmul q c"
  define E where "E = C * sum_list qs"
  define n where "n = length qs + 2"
  have u: "0 < u" "u < 1" using unit_roundoff_range by (simp_all add: u_def)
  have mpos: "0 < min_normal" by (rule min_normal_pos)
  have ih: "s = 0 \<or> min_normal \<le> s" "(1 - u) ^ n * E \<le> s" "s \<le> (1 + u) ^ n * E"
    using snoc by (simp_all add: s_def E_def n_def u_def within_rounding_def)
  have q: "q = 0 \<or> (0 < q \<and> min_normal \<le> q * c)" using snoc.prems by simp
  then have q0: "0 \<le> q" by auto
  have qc: "q * c = 0 \<or> min_normal \<le> q * c" using q by auto
  have qC: "0 \<le> q * C" using q0 assms(2) by simp
  have tn: "t = 0 \<or> min_normal \<le> t"
    using qc round_double_normal [of "q * c"] by (auto simp: t_def fmul_def)
  have t1: "(1 - u) * (q * c) \<le> t" and t2: "t \<le> (1 + u) * (q * c)"
    using round_double_interval [OF qc] by (simp_all add: t_def fmul_def u_def)
  have c1: "(1 - u) * (q * C) \<le> q * c"
    using mult_left_mono [OF assms(3) q0] by (simp add: u_def algebra_simps)
  have c2: "q * c \<le> (1 + u) * (q * C)"
    using mult_left_mono [OF assms(4) q0] by (simp add: u_def algebra_simps)
  have tl: "(1 - u) ^ n * (q * C) \<le> t"
  proof -
    have "(1 - u) ^ n \<le> (1 - u) ^ 2"
      using u by (intro power_decreasing) (simp_all add: n_def)
    then have "(1 - u) ^ n * (q * C) \<le> (1 - u) ^ 2 * (q * C)"
      using qC by (rule mult_right_mono)
    also have "\<dots> = (1 - u) * ((1 - u) * (q * C))" by (simp add: power2_eq_square)
    also have "\<dots> \<le> (1 - u) * (q * c)"
      using c1 u by (intro mult_left_mono) simp_all
    also have "\<dots> \<le> t" by (rule t1)
    finally show ?thesis .
  qed
  have tu: "t \<le> (1 + u) ^ n * (q * C)"
  proof -
    have "t \<le> (1 + u) * (q * c)" by (rule t2)
    also have "\<dots> \<le> (1 + u) * ((1 + u) * (q * C))"
      using c2 u by (intro mult_left_mono) simp_all
    also have "\<dots> = (1 + u) ^ 2 * (q * C)" by (simp add: power2_eq_square)
    also have "\<dots> \<le> (1 + u) ^ n * (q * C)"
    proof (rule mult_right_mono [OF _ qC])
      show "(1 + u) ^ 2 \<le> (1 + u) ^ n"
        using u by (intro power_increasing) (simp_all add: n_def)
    qed
    finally show ?thesis .
  qed
  have s0: "0 \<le> s" using ih(1) mpos by auto
  have t0: "0 \<le> t" using tn mpos by auto
  have st: "s + t = 0 \<or> min_normal \<le> s + t"
    using ih(1) tn s0 t0 by auto
  have sum: "running_sum c (qs @ [q]) = round_double (s + t)"
    by (simp add: running_sum_snoc s_def t_def fadd_def)
  have r1: "(1 - u) * (s + t) \<le> round_double (s + t)"
    and r2: "round_double (s + t) \<le> (1 + u) * (s + t)"
    using round_double_interval [OF st] by (simp_all add: u_def)
  have norm: "round_double (s + t) = 0 \<or> min_normal \<le> round_double (s + t)"
    using st round_double_normal [of "s + t"] by auto
  have lo: "(1 - u) ^ Suc n * (E + q * C) \<le> round_double (s + t)"
  proof -
    have "(1 - u) ^ n * (E + q * C) \<le> s + t"
      using ih(2) tl by (simp add: algebra_simps)
    then have "(1 - u) * ((1 - u) ^ n * (E + q * C)) \<le> (1 - u) * (s + t)"
      using u by (intro mult_left_mono) simp_all
    then show ?thesis using r1 by simp
  qed
  have hi: "round_double (s + t) \<le> (1 + u) ^ Suc n * (E + q * C)"
  proof -
    have "s + t \<le> (1 + u) ^ n * (E + q * C)"
      using ih(3) tu by (simp add: algebra_simps)
    then have "(1 + u) * (s + t) \<le> (1 + u) * ((1 + u) ^ n * (E + q * C))"
      using u by (intro mult_left_mono) simp_all
    then show ?thesis using r2 by simp
  qed
  have E: "C * sum_list (qs @ [q]) = E + q * C" by (simp add: E_def algebra_simps)
  have n: "length (qs @ [q]) + 2 = Suc n" by (simp add: n_def)
  show ?case
    unfolding sum within_rounding_def E n u_def [symmetric]
    using norm lo hi by simp
qed

section \<open>Objects and maps\<close>


lemma classifications_saveOverrides [simp]:
  "classifications (saveOverrides vs st) = classifications st"
  by (simp add: saveOverrides_def Let_def)

lemma manualOverrides_saveOverrides [simp]:
  "manualOverrides (saveOverrides vs st) = manualOverrides st"
  by (simp add: saveOverrides_def Let_def)

lemma writes_saveOverrides [simp]: "writes (saveOverrides vs st) = writes st + 1"
  by (simp add: saveOverrides_def Let_def)

lemma L3_LABELS_entries: "\<forall>kv \<in> set L3_LABELS. fst kv \<noteq> [] \<and> truthy (snd kv)"
  by (simp add: L3_LABELS_def UNIFORMAT_HIERARCHY_def)

lemma known_leaf_code_accepted:
  assumes "known_leaf_code c"
  shows "c \<noteq> [] \<and> truthy (js_get L3_LABELS c)"
proof -
  from assms obtain v where v: "map_of L3_LABELS c = Some v"
    unfolding known_leaf_code_def by (metis map_of_eq_None_iff not_Some_eq)
  then have "(c, v) \<in> set L3_LABELS" by (rule map_of_SomeD)
  with L3_LABELS_entries have "c \<noteq> [] \<and> truthy v" by fastforce
  then show ?thesis using v by (simp add: js_get_def)
qed

section \<open>The classification cascade\<close>

lemma classify_step_other: "fst kd \<noteq> k \<Longrightarrow> classify_step ov kd cls k = cls k"
  by (simp add: classify_step_def Let_def split: option.splits)

lemma fold_classify_other:
  "k \<notin> fst ` set es \<Longrightarrow> fold (classify_step ov) es cls k = cls k"
  by (induction es arbitrary: cls) (auto simp: classify_step_other)

lemma classify_step_manual:
  "map_of ov (fst kd) = Some c \<Longrightarrow>
   classify_step ov kd cls (fst kd) = Some \<lparr>code = JStr c, source = ''manual'', confidence = 1\<rparr>"
  by (simp add: classify_step_def)

lemma or_null_falsy: "\<not> truthy (or_null x) \<Longrightarrow> or_null x = JNull"
  by (simp add: or_null_def split: if_splits)

text \<open>
  Without an override, the loop body of the full rebuild stores what the single-element
  re-derivation of \<^verbatim>\<open>setManualClassification\<close> stores.
\<close>

lemma classify_step_rederive:
  "map_of ov (fst kd) = None \<Longrightarrow> classify_step ov kd cls = cls(fst kd \<mapsto> rederive (snd kd))"
  by (simp add: classify_step_def rederive_def Let_def or_null_falsy)

lemma fold_classify_manual:
  "k \<in> fst ` set es \<Longrightarrow> map_of ov k = Some c \<Longrightarrow>
   fold (classify_step ov) es cls k = Some \<lparr>code = JStr c, source = ''manual'', confidence = 1\<rparr>"
proof (induction es arbitrary: cls)
  case Nil
  then show ?case by simp
next
  case (Cons kd es)
  show ?case
  proof (cases "k \<in> fst ` set es")
    case True
    then show ?thesis using Cons by simp
  next
    case False
    with Cons.prems have k: "fst kd = k" by auto
    have "fold (classify_step ov) es (classify_step ov kd cls) k = classify_step ov kd cls k"
      using False by (rule fold_classify_other)
    then show ?thesis using k Cons.prems(2) classify_step_manual [of ov kd c cls] by simp
  qed
qed

lemma fold_classify_rederive:
  "distinct (map fst es) \<Longrightarrow> (k, data) \<in> set es \<Longrightarrow> map_of ov k = None \<Longrightarrow>
   fold (classify_step ov) es cls k = Some (rederive data)"
proof (induction es arbitrary: cls)
  case Nil
  then show ?case by simp
next
  case (Cons kd es)
  show ?case
  proof (cases "kd = (k, data)")
    case True
    with Cons.prems have "k \<notin> fst ` set es" by auto
    then have "fold (classify_step ov) es (classify_step ov kd cls) k = classify_step ov kd cls k"
      by (rule fold_classify_other)
    then show ?thesis using True Cons.prems(3) by (simp add: classify_step_rederive)
  next
    case False
    then show ?thesis using Cons by auto
  qed
qed

text \<open>
  C2. An element of the loaded model that has a manual override gets, from a full
  rebuild by \<^verbatim>\<open>classifyAllElements\<close>, the overridden code with source \<^verbatim>\<open>manual\<close> and
  confidence 1, whatever its properties, name, storey and type are.
\<close>

theorem override_precedence:
  assumes "k \<in> fst ` set (elementDataMap vs)"
    and "map_of (manualOverrides st) k = Some c"
  shows "classifications (classifyAllElements vs st) k =
         Some \<lparr>code = JStr c, source = ''manual'', confidence = 1\<rparr>"
  using assms by (simp add: classifyAllElements_def fold_classify_manual)

theorem override_precedence_witness:
  "classifications
     (classifyAllElements sample_viewer (initial_state\<lparr>manualOverrides := [(''3:42'', ''B2010'')]\<rparr>))
     ''3:42'' =
   Some \<lparr>code = JStr ''B2010'', source = ''manual'', confidence = 1\<rparr>"
  using override_precedence
    [of "''3:42''" sample_viewer "initial_state\<lparr>manualOverrides := [(''3:42'', ''B2010'')]\<rparr>"
        "''B2010''"]
  by (simp add: sample_viewer_def initial_state_def)

text \<open>
  C3. For an element of the loaded model, clearing its override with
  \<^verbatim>\<open>setManualClassification(key, null)\<close> leaves for it the very record (code, source and
  confidence) that a full rebuild computes for it in any state that has no override for
  that element.
\<close>

theorem rederivation_equivalence:
  assumes "distinct (map fst (elementDataMap vs))"
    and "map_of (elementDataMap vs) k = Some data"
    and "map_of (manualOverrides st') k = None"
  shows "classifications (setManualClassification vs k None st) k =
         classifications (classifyAllElements vs st') k"
proof -
  have "(k, data) \<in> set (elementDataMap vs)"
    using assms(2) by (rule map_of_SomeD)
  then have "classifications (classifyAllElements vs st') k = Some (rederive data)"
    using assms(1,3) by (simp add: classifyAllElements_def fold_classify_rederive)
  moreover have "classifications (setManualClassification vs k None st) k = Some (rederive data)"
    using assms(2) by (simp add: setManualClassification_def)
  ultimately show ?thesis by simp
qed

theorem rederivation_equivalence_witness:
  "classifications
     (setManualClassification sample_viewer ''3:42'' None
        (initial_state\<lparr>manualOverrides := [(''3:42'', ''B2010'')]\<rparr>)) ''3:42'' =
   classifications (classifyAllElements sample_viewer initial_state) ''3:42''"
  using rederivation_equivalence
    [of sample_viewer "''3:42''" sample_wall initial_state
        "initial_state\<lparr>manualOverrides := [(''3:42'', ''B2010'')]\<rparr>"]
  by (simp add: sample_viewer_def initial_state_def)

section \<open>Bulk assignment\<close>





lemma writes_bulk_step [simp]: "writes (bulk_step ty c kd st) = writes st"
  by (simp add: bulk_step_def)

lemma writes_fold_bulk [simp]: "writes (fold (bulk_step ty c) es st) = writes st"
  by (induction es arbitrary: st) auto




section \<open>The guard on manual codes\<close>

lemma L3_LABELS_key_length: "\<forall>kv \<in> set L3_LABELS. length (fst kv) = 5"
  by (simp add: L3_LABELS_def UNIFORMAT_HIERARCHY_def)

lemma inherited_length: "\<forall>k \<in> set Object_prototype_names. 7 \<le> length k"
  by (simp add: Object_prototype_names_def)

lemma inherited_not_own: "inherited c \<Longrightarrow> map_of L3_LABELS c = None"
  using L3_LABELS_key_length inherited_length
  by (fastforce simp: inherited_def map_of_eq_None_iff)

lemma inherited_constructor: "js_get L3_LABELS ''constructor'' = JInherited ''constructor''"
proof -
  have i: "inherited ''constructor''"
    by (simp add: inherited_def Object_prototype_names_def)
  then show ?thesis by (simp add: js_get_def inherited_not_own)
qed

lemma not_known_constructor: "\<not> known_leaf_code ''constructor''"
  using L3_LABELS_key_length by (fastforce simp: known_leaf_code_def)

text \<open>
  What \<^verbatim>\<open>L3_LABELS[c]\<close> lets through: the known leaf codes, and the names every object
  inherits.
\<close>

lemma guard_accepts:
  "truthy (js_get L3_LABELS c) \<longleftrightarrow> known_leaf_code c \<or> inherited c"
proof
  assume t: "truthy (js_get L3_LABELS c)"
  show "known_leaf_code c \<or> inherited c"
  proof (cases "map_of L3_LABELS c")
    case None
    then show ?thesis using t by (simp add: js_get_def split: if_splits)
  next
    case (Some v)
    then have "(c, v) \<in> set L3_LABELS" by (rule map_of_SomeD)
    then have "c \<in> fst ` set L3_LABELS" by force
    then show ?thesis by (simp add: known_leaf_code_def)
  qed
next
  assume "known_leaf_code c \<or> inherited c"
  then show "truthy (js_get L3_LABELS c)"
  proof
    assume "known_leaf_code c"
    then show ?thesis by (simp add: known_leaf_code_accepted)
  next
    assume i: "inherited c"
    then have "map_of L3_LABELS c = None" by (rule inherited_not_own)
    then show ?thesis using i by (simp add: js_get_def)
  qed
qed

text \<open>
  C8. The claim: a code that is neither \<^verbatim>\<open>null\<close> nor a known leaf code leaves both maps
  unchanged. The code at \<^verbatim>\<open>setManualClassification('3:42', 'constructor')\<close>: the string
  is no leaf code, yet \<^verbatim>\<open>L3_LABELS['constructor']\<close> is the inherited constructor function,
  the guard passes, and the string is stored as override and as classification code.
\<close>

theorem setManualClassification_stores_inherited_name:
  "\<not> known_leaf_code ''constructor'' \<and>
   manualOverrides (setManualClassification sample_viewer ''3:42'' (Some ''constructor'')
      initial_state) = [(''3:42'', ''constructor'')] \<and>
   classifications (setManualClassification sample_viewer ''3:42'' (Some ''constructor'')
      initial_state) ''3:42'' =
     Some \<lparr>code = JStr ''constructor'', source = ''manual'', confidence = 1\<rparr>"
  by (simp add: not_known_constructor inherited_constructor setManualClassification_def
      initial_state_def map_set_def)

text \<open>Every other string that is no leaf code is rejected: both maps stay as they are.\<close>

lemma setManualClassification_rejects:
  assumes "\<not> known_leaf_code c" and "\<not> inherited c"
  shows "manualOverrides (setManualClassification vs k (Some c) st) = manualOverrides st \<and>
         classifications (setManualClassification vs k (Some c) st) = classifications st"
  using assms by (simp add: setManualClassification_def guard_accepts)

lemma fromStableKey_sample: "fromStableKey (models sample_viewer) ''F:42'' = Some ''3:42''"
  by (simp add: fromStableKey_def sample_viewer_def digit_char_def digit_chars_def)

lemma loadOverrides_sample:
  "manualOverrides (fst (loadOverrides sample_viewer
      (initial_state\<lparr>storage := Some [(''F:42'', ''constructor'')]\<rparr>))) =
     [(''3:42'', ''constructor'')]"
  by (simp add: inherited_constructor loadOverrides_def load_step_def
      fromStableKey_sample initial_state_def map_set_def)

text \<open>
  C10. The claim: every mutation path keeps the stored overrides and the codes of the
  classification records within the known leaf codes. The code at \<^verbatim>\<open>loadOverrides()\<close> with
  the persisted store \<^verbatim>\<open>{"F:42": "constructor"}\<close> and file \<^verbatim>\<open>F\<close> loaded: the same guard
  \<^verbatim>\<open>L3_LABELS[l3Code]\<close> lets the inherited name through, the override map holds a string
  that is no leaf code, and the rebuild that follows copies it into the classification record.
\<close>

theorem loadOverrides_stores_inherited_name:
  "\<not> known_leaf_code ''constructor'' \<and>
   manualOverrides (fst (loadOverrides sample_viewer
      (initial_state\<lparr>storage := Some [(''F:42'', ''constructor'')]\<rparr>))) =
     [(''3:42'', ''constructor'')] \<and>
   classifications (classifyAllElements sample_viewer (fst (loadOverrides sample_viewer
      (initial_state\<lparr>storage := Some [(''F:42'', ''constructor'')]\<rparr>)))) ''3:42'' =
     Some \<lparr>code = JStr ''constructor'', source = ''manual'', confidence = 1\<rparr>"
proof -
  have "''3:42'' \<in> fst ` set (elementDataMap sample_viewer)"
    by (simp add: sample_viewer_def)
  then show ?thesis
    by (simp add: not_known_constructor loadOverrides_sample classifyAllElements_def
        fold_classify_manual)
qed

section \<open>Quantity detection\<close>

lemmas string_eval = toLowerCase_def toLowerCase_char_def upper_letters_def lower_letters_def
  latin1_letters_def startsWith_def

lemmas quantity_eval = classifyQuantityKey_def Let_def QTO_SET_NAMES_def
  QUANTITY_NAME_KEYWORDS_def

text \<open>
  A key gets a category exactly when its last segment holds a dimension keyword: the
  test on the set name never decides.
\<close>

lemma classifyQuantityKey_iff:
  "classifyQuantityKey k \<noteq> None \<longleftrightarrow> has_dimension_keyword k"
  by (auto simp: classifyQuantityKey_def has_dimension_keyword_def Let_def
      QUANTITY_NAME_KEYWORDS_def)

lemma weight_key: "classifyQuantityKey ''BaseQuantities.Weight'' = None"
  by (simp add: quantity_eval string_eval)

lemma area_key: "classifyQuantityKey ''Dimensions.Area'' = Some Area"
  by (simp add: quantity_eval string_eval)

lemma push_candidate_changes:
  "push_candidate (k, v) cands \<noteq> cands \<longleftrightarrow>
     has_dimension_keyword k \<and> (\<exists>x. v = PNum x \<and> 0 < x)"
proof (cases "classifyQuantityKey k")
  case None
  then show ?thesis
    using classifyQuantityKey_iff [of k] by (simp add: push_candidate_def)
next
  case (Some cat)
  then have kw: "has_dimension_keyword k"
    using classifyQuantityKey_iff [of k] by simp
  show ?thesis
  proof (cases "\<exists>x. v = PNum x \<and> 0 < x")
    case True
    then obtain x where x: "v = PNum x" "0 < x" by blast
    have "push_candidate (k, v) cands cat \<noteq> cands cat"
      using Some x by (simp add: push_candidate_def)
    then have "push_candidate (k, v) cands \<noteq> cands" by metis
    then show ?thesis using kw True by simp
  next
    case False
    then have "push_candidate (k, v) cands = cands"
      using Some by (cases v) (auto simp: push_candidate_def)
    then show ?thesis using False by simp
  qed
qed

lemma dimensions_area:
  "extractQuantities (Some [(''Dimensions.Area'', PNum 12)]) Area = 12"
  by (simp add: extractQuantities_def push_candidate_def area_key Math_max_def string_eval)

text \<open>
  C5, as stated, fails: \<^verbatim>\<open>"BaseQuantities.Weight" = 5\<close> has a known set name and a
  positive number, so the claim accepts it, while the loop of \<^verbatim>\<open>extractQuantities\<close>
  pushes nothing for it.
\<close>

theorem known_set_alone_counterexample:
  "claimed_candidate ''BaseQuantities.Weight'' (PNum 5) \<and>
   push_candidate (''BaseQuantities.Weight'', PNum 5) (\<lambda>cat. []) = (\<lambda>cat. [])"
  by (simp add: claimed_candidate_def push_candidate_def weight_key string_eval
      QTO_SET_NAMES_def)

text \<open>
  C5, amended. A pair is pushed as a candidate exactly when the last dot-separated
  segment of the lower-cased key holds a dimension keyword and the value is a number
  above zero; a known set name neither suffices nor is needed. And the bag with only
  \<^verbatim>\<open>"Dimensions.Area" = 12\<close> gives area 12.
\<close>

theorem candidate_acceptance:
  "(push_candidate (k, v) cands \<noteq> cands \<longleftrightarrow>
      has_dimension_keyword k \<and> (\<exists>x. v = PNum x \<and> 0 < x)) \<and>
   extractQuantities (Some [(''Dimensions.Area'', PNum 12)]) Area = 12"
  using push_candidate_changes dimensions_area by simp

theorem candidate_acceptance_witness:
  "push_candidate (''Dimensions.Area'', PNum 12) (\<lambda>cat. []) \<noteq> (\<lambda>cat. []) \<and>
   has_dimension_keyword ''Dimensions.Area'' \<and>
   push_candidate (''BaseQuantities.Weight'', PNum 5) (\<lambda>cat. []) = (\<lambda>cat. []) \<and>
   \<not> has_dimension_keyword ''BaseQuantities.Weight''"
  using candidate_acceptance [of "''Dimensions.Area''" "PNum 12" "\<lambda>cat. []"]
    candidate_acceptance [of "''BaseQuantities.Weight''" "PNum 5" "\<lambda>cat. []"]
  by (simp add: has_dimension_keyword_def QUANTITY_NAME_KEYWORDS_def string_eval)

section \<open>Gross and net duplicates\<close>

lemma push_candidate_at:
  "push_candidate kv cands cat = cands cat @ candidate_of cat kv"
proof (cases kv)
  case (Pair k v)
  then show ?thesis
    by (cases v; cases "classifyQuantityKey k") (auto simp: push_candidate_def)
qed

lemma fold_push_candidate:
  "fold push_candidate ps cands cat = cands cat @ concat (map (candidate_of cat) ps)"
  by (induction ps arbitrary: cands) (simp_all add: push_candidate_at)

lemma Math_max_Max: "Math_max x xs = Max (set (x # xs))"
  unfolding Math_max_def by (rule Max.set_eq_fold [symmetric])

lemma candidate_of_set:
  "set (concat (map (candidate_of cat) ps)) =
     {\<lparr>value = x, isGross = str_includes (toLowerCase k) ''gross'', key = k\<rparr> | k x.
        (k, PNum x) \<in> set ps \<and> classifyQuantityKey k = Some cat \<and> 0 < x}"
proof (induction ps)
  case Nil
  then show ?case by simp
next
  case (Cons kv ps)
  obtain k v where kv: "kv = (k, v)" by (cases kv)
  show ?case using Cons by (cases v) (auto simp: kv)
qed

lemma candidate_values:
  "value ` set (concat (map (candidate_of cat) ps)) =
     {x. \<exists>k. (k, PNum x) \<in> set ps \<and> classifyQuantityKey k = Some cat \<and> 0 < x}"
  unfolding candidate_of_set by force

lemma gross_candidate_values:
  "value ` set (filter isGross (concat (map (candidate_of cat) ps))) =
     {x. \<exists>k. (k, PNum x) \<in> set ps \<and> classifyQuantityKey k = Some cat \<and> 0 < x \<and>
              str_includes (toLowerCase k) ''gross''}"
  unfolding set_filter candidate_of_set by force

lemma extractQuantities_Max:
  "extractQuantities (Some ps) cat =
     (if {x. \<exists>k. (k, PNum x) \<in> set ps \<and> classifyQuantityKey k = Some cat \<and> 0 < x} = {}
      then 0
      else if {x. \<exists>k. (k, PNum x) \<in> set ps \<and> classifyQuantityKey k = Some cat \<and> 0 < x \<and>
                  str_includes (toLowerCase k) ''gross''} \<noteq> {}
      then Max {x. \<exists>k. (k, PNum x) \<in> set ps \<and> classifyQuantityKey k = Some cat \<and> 0 < x \<and>
                  str_includes (toLowerCase k) ''gross''}
      else Max {x. \<exists>k. (k, PNum x) \<in> set ps \<and> classifyQuantityKey k = Some cat \<and> 0 < x})"
proof -
  define cands where "cands = concat (map (candidate_of cat) ps)"
  define A where
    "A = {x. \<exists>k. (k, PNum x) \<in> set ps \<and> classifyQuantityKey k = Some cat \<and> 0 < x}"
  define G where
    "G = {x. \<exists>k. (k, PNum x) \<in> set ps \<and> classifyQuantityKey k = Some cat \<and> 0 < x \<and>
              str_includes (toLowerCase k) ''gross''}"
  have all: "value ` set cands = A"
    unfolding cands_def A_def by (rule candidate_values)
  have gross: "value ` set (filter isGross cands) = G"
    unfolding cands_def G_def by (rule gross_candidate_values)
  have ex: "extractQuantities (Some ps) cat =
      (case cands of
         [] \<Rightarrow> 0
       | v # vs \<Rightarrow>
           (case filter isGross (v # vs) of
              g # gs \<Rightarrow> Math_max (value g) (map value gs)
            | [] \<Rightarrow> Math_max (value v) (map value vs)))"
    by (simp add: extractQuantities_def fold_push_candidate cands_def)
  have "extractQuantities (Some ps) cat =
          (if A = {} then 0 else if G \<noteq> {} then Max G else Max A)"
  proof (cases cands)
    case Nil
    then have "A = {}" using all by simp
    then show ?thesis using ex Nil by simp
  next
    case (Cons v vs)
    then have ne: "A \<noteq> {}" using all by auto
    show ?thesis
    proof (cases "filter isGross cands")
      case Nil
      then have "G = {}" using gross by simp
      moreover have "extractQuantities (Some ps) cat = Max (value ` set cands)"
        using ex Cons Nil by (simp add: Math_max_Max)
      ultimately show ?thesis using ne all by simp
    next
      case (Cons g gs)
      then have "G \<noteq> {}" using gross by auto
      moreover have "extractQuantities (Some ps) cat = Max (value ` set (filter isGross cands))"
        using ex \<open>cands = v # vs\<close> Cons by (simp add: Math_max_Max)
      ultimately show ?thesis using ne gross by simp
    qed
  qed
  then show ?thesis unfolding A_def G_def .
qed

lemma area_key1: "classifyQuantityKey ''GrossAreas.Area'' = Some Area"
  by (simp add: quantity_eval string_eval)

lemma gross_key1: "str_includes (toLowerCase ''GrossAreas.Area'') ''gross''"
  by (simp add: string_eval)

lemma gross_key2: "\<not> str_includes (toLowerCase ''Dimensions.Area'') ''gross''"
  by (simp add: string_eval)

lemma vol_key1: "classifyQuantityKey ''BaseQuantities.NetVolume'' = Some Volume"
  by (simp add: quantity_eval string_eval)

lemma vol_key2: "classifyQuantityKey ''BaseQuantities.GrossVolume'' = Some Volume"
  by (simp add: quantity_eval string_eval)

lemma gross_key3: "\<not> str_includes (toLowerCase ''BaseQuantities.NetVolume'') ''gross''"
  by (simp add: string_eval)

lemma gross_key4: "str_includes (toLowerCase ''BaseQuantities.GrossVolume'') ''gross''"
  by (simp add: string_eval)

lemma gross_volume_scenario:
  "extractQuantities (Some [(''BaseQuantities.NetVolume'', PNum (5 / 2)),
       (''BaseQuantities.GrossVolume'', PNum 3)]) Volume = 3"
  by (simp add: extractQuantities_def push_candidate_def
      vol_key1 vol_key2 gross_key3 gross_key4 Math_max_def)

lemma cubic_yards_of_3:
  "fadd 0 (fmul 3 M3_TO_CY) = fmul 3 M3_TO_CY"
  "fmul 3 M3_TO_CY = 2208931174732215 / 562949953421312"
  "\<bar>fmul 3 M3_TO_CY - 3 * (130795 / 100000)\<bar> < 1 / 10 ^ 15"
  by code_simp+

text \<open>
  C4, as stated, fails: in the bag \<^verbatim>\<open>"GrossAreas.Area" = 1\<close>, \<^verbatim>\<open>"Dimensions.Area" = 5\<close> no
  property name holds \<^verbatim>\<open>gross\<close>, so the claim gives the maximum 5 of all candidates;
  the code tests the whole key, finds \<^verbatim>\<open>gross\<close> in the set name of the first entry and
  returns 1.
\<close>

theorem gross_in_set_name_counterexample:
  "extractQuantities (Some [(''GrossAreas.Area'', PNum 1), (''Dimensions.Area'', PNum 5)]) Area
     = 1 \<and>
   claimed_extractQuantities [(''GrossAreas.Area'', PNum 1), (''Dimensions.Area'', PNum 5)] Area
     = 5"
  by (simp add: extractQuantities_def claimed_extractQuantities_def push_candidate_def
      area_key1 area_key gross_key1 gross_key2 Math_max_def property_name_def string_eval)

text \<open>
  C4, amended. For every property bag and category, \<^verbatim>\<open>extractQuantities\<close> returns the
  maximum among the candidates whose whole lower-cased key (set name included) holds
  \<^verbatim>\<open>gross\<close> when there is one, otherwise the maximum among all candidates of the category,
  and 0 when the category has no candidate. The bag with \<^verbatim>\<open>"BaseQuantities.NetVolume" = 2.5\<close>
  and \<^verbatim>\<open>"BaseQuantities.GrossVolume" = 3.0\<close> gives volume 3, which \<^verbatim>\<open>addToAgg\<close> adds to the
  CY column as the double \<^verbatim>\<open>3.0 * 1.30795\<close>, within \<open>10\<^sup>-\<^sup>1\<^sup>5\<close> of 3.92385.
\<close>

theorem gross_preference:
  "extractQuantities (Some ps) cat =
     (if {x. \<exists>k. (k, PNum x) \<in> set ps \<and> classifyQuantityKey k = Some cat \<and> 0 < x} = {}
      then 0
      else if {x. \<exists>k. (k, PNum x) \<in> set ps \<and> classifyQuantityKey k = Some cat \<and> 0 < x \<and>
                  str_includes (toLowerCase k) ''gross''} \<noteq> {}
      then Max {x. \<exists>k. (k, PNum x) \<in> set ps \<and> classifyQuantityKey k = Some cat \<and> 0 < x \<and>
                  str_includes (toLowerCase k) ''gross''}
      else Max {x. \<exists>k. (k, PNum x) \<in> set ps \<and> classifyQuantityKey k = Some cat \<and> 0 < x}) \<and>
   extractQuantities (Some [(''BaseQuantities.NetVolume'', PNum (5 / 2)),
       (''BaseQuantities.GrossVolume'', PNum 3)]) Volume = 3 \<and>
   cy (addToAgg emptyAgg
         (extractQuantities (Some [(''BaseQuantities.NetVolume'', PNum (5 / 2)),
            (''BaseQuantities.GrossVolume'', PNum 3)])) key0) = fmul 3 M3_TO_CY \<and>
   fmul 3 M3_TO_CY = 2208931174732215 / 562949953421312 \<and>
   \<bar>fmul 3 M3_TO_CY - 3 * (130795 / 100000)\<bar> < 1 / 10 ^ 15"
proof -
  have "cy (addToAgg emptyAgg
         (extractQuantities (Some [(''BaseQuantities.NetVolume'', PNum (5 / 2)),
            (''BaseQuantities.GrossVolume'', PNum 3)])) key0) = fadd 0 (fmul 3 M3_TO_CY)"
    by (simp add: addToAgg_def emptyAgg_def gross_volume_scenario)
  then have "cy (addToAgg emptyAgg
         (extractQuantities (Some [(''BaseQuantities.NetVolume'', PNum (5 / 2)),
            (''BaseQuantities.GrossVolume'', PNum 3)])) key0) = fmul 3 M3_TO_CY"
    by (simp only: cubic_yards_of_3(1))
  then show ?thesis
    using extractQuantities_Max [of ps cat] gross_volume_scenario cubic_yards_of_3 by blast
qed

theorem gross_preference_witness:
  "extractQuantities (Some []) Area = 0 \<and>
   extractQuantities (Some [(''BaseQuantities.NetVolume'', PNum (5 / 2)),
       (''BaseQuantities.GrossVolume'', PNum 3)]) Volume = 3 \<and>
   cy (addToAgg emptyAgg
         (extractQuantities (Some [(''BaseQuantities.NetVolume'', PNum (5 / 2)),
            (''BaseQuantities.GrossVolume'', PNum 3)])) ''3:42'') =
     2208931174732215 / 562949953421312"
  using gross_preference [of "[]" Area "''3:42''"] by simp

section \<open>Stable keys\<close>

declare show_nat.simps [simp del]

lemma digit_table: "\<forall>c \<in> set digit_chars.
    digit_value 10 c \<noteq> None \<and> \<not> is_space c \<and> c \<noteq> CHR '':'' \<and> c \<noteq> CHR ''-'' \<and>
    c \<noteq> CHR ''+'' \<and> c \<noteq> CHR ''x'' \<and> c \<noteq> CHR ''X''"
  by (simp add: digit_chars_def digit_value_def hex_digits_def is_space_def)

lemma digit_char_table:
  "\<forall>d \<in> set [0, 1, 2, 3, 4, 5, 6, 7, 8, 9].
     digit_value 10 (digit_char d) = Some d \<and> digit_char d \<in> set digit_chars"
  by (simp add: digit_char_def digit_chars_def digit_value_def hex_digits_def)

lemma digit_cases: "d < 10 \<Longrightarrow> d \<in> set [0, 1, 2, 3, 4, 5, 6, 7, 8, 9::nat]"
  by (simp only: set_simps insert_iff empty_iff) arith

lemma digit_value_digit_char: "d < 10 \<Longrightarrow> digit_value 10 (digit_char d) = Some d"
  using digit_char_table digit_cases by blast

lemma digit_char_in: "d < 10 \<Longrightarrow> digit_char d \<in> set digit_chars"
  using digit_char_table digit_cases by blast

lemma show_nat_digits: "set (show_nat n) \<subseteq> set digit_chars"
proof (induction n rule: show_nat.induct)
  case (1 n)
  show ?case
  proof (cases "n < 10")
    case True
    then show ?thesis by (simp add: show_nat.simps [of n] digit_char_in)
  next
    case False
    then show ?thesis using 1 by (simp add: show_nat.simps [of n] digit_char_in)
  qed
qed

lemma show_nat_nonempty: "show_nat n \<noteq> []"
  by (simp add: show_nat.simps [of n])

lemma digits_no_colon: "set s \<subseteq> set digit_chars \<Longrightarrow> CHR '':'' \<notin> set s"
  using digit_table by blast

lemma show_nat_no_colon: "CHR '':'' \<notin> set (show_nat n)"
  using show_nat_digits by (rule digits_no_colon)

lemma js_split_none: "c \<notin> set s \<Longrightarrow> js_split c s = [s]"
  by (induction s) auto

lemma js_split_append: "c \<notin> set a \<Longrightarrow> js_split c (a @ c # b) = a # js_split c b"
  by (induction a) auto

lemma js_split_makeKey: "js_split CHR '':'' (makeKey i e) = [show_nat i, show_nat e]"
  by (simp add: makeKey_def js_split_append js_split_none show_nat_no_colon)

lemma digits_all_values:
  "set s \<subseteq> set digit_chars \<Longrightarrow> takeWhile (\<lambda>c. digit_value 10 c \<noteq> None) s = s"
  using digit_table by (induction s) simp_all

lemma digits_no_space: "set s \<subseteq> set digit_chars \<Longrightarrow> dropWhile is_space s = s"
  using digit_table by (cases s) simp_all

lemma startsWith_set: "startsWith s p \<Longrightarrow> set p \<subseteq> set s"
  unfolding startsWith_def using set_take_subset [of "length p" s] by auto

lemma digits_no_hex:
  assumes "set s \<subseteq> set digit_chars"
  shows "\<not> startsWith s ''0x'' \<and> \<not> startsWith s ''0X''"
proof -
  have no: "CHR ''x'' \<notin> set s" "CHR ''X'' \<notin> set s"
    using assms digit_table by blast+
  then show ?thesis using startsWith_set [of s "''0x''"] startsWith_set [of s "''0X''"] by auto
qed

lemma decimal_show_nat: "decimal (show_nat n) = n"
proof (induction n rule: show_nat.induct)
  case (1 n)
  show ?case
  proof (cases "n < 10")
    case True
    then show ?thesis
      by (simp add: show_nat.simps [of n] decimal_def digit_value_digit_char)
  next
    case False
    then have "decimal (show_nat (n div 10)) = n div 10" using 1 by simp
    then show ?thesis using False
      by (simp add: show_nat.simps [of n] decimal_def digit_value_digit_char)
  qed
qed

lemma parseInt_digits:
  assumes d: "set s \<subseteq> set digit_chars" and ne: "s \<noteq> []"
  shows "parseInt s = Some (int (decimal s))"
proof -
  obtain c r where cr: "s = c # r" using ne by (cases s) auto
  have "c \<in> set digit_chars" using d cr by simp
  then have sign: "c \<noteq> CHR ''-''" "c \<noteq> CHR ''+''" using digit_table by blast+
  have s1: "dropWhile is_space s = s" using d by (rule digits_no_space)
  have s2: "(case s of c # r \<Rightarrow> if c = CHR ''-'' \<or> c = CHR ''+'' then r else s | [] \<Rightarrow> s) = s"
    using sign by (simp add: cr)
  have sg: "(case s of c # r \<Rightarrow> if c = CHR ''-'' then (-1::int) else 1 | [] \<Rightarrow> 1) = 1"
    using sign by (simp add: cr)
  have hex: "\<not> (startsWith s ''0x'' \<or> startsWith s ''0X'')"
    using digits_no_hex [OF d] by simp
  have tw: "takeWhile (\<lambda>c. digit_value 10 c \<noteq> None) s = s"
    using d by (rule digits_all_values)
  show ?thesis
    unfolding parseInt_def Let_def s1 s2 sg using hex ne
    by (simp only: if_False tw decimal_def) simp
qed

lemma parseInt_show_nat: "parseInt (show_nat n) = Some (int n)"
  using parseInt_digits [OF show_nat_digits show_nat_nonempty, of n]
  by (simp add: decimal_show_nat)

lemma lastIndexOf_none: "c \<notin> set s \<Longrightarrow> lastIndexOf s c = None"
  by (induction s) auto

lemma lastIndexOf_append:
  "c \<notin> set b \<Longrightarrow> lastIndexOf (a @ c # b) c = Some (length a)"
  by (induction a) (auto simp: lastIndexOf_none)

lemma toStableKey_makeKey:
  "toStableKey ms (makeKey i e) =
     (case find (\<lambda>m. idx m = i) ms of
        None \<Rightarrow> None
      | Some m \<Rightarrow> Some (filename m @ '':'' @ show_nat e))"
proof -
  have "find (\<lambda>m. parseInt (show_nat i) = Some (int (idx m))) ms = find (\<lambda>m. idx m = i) ms"
    by (rule find_cong) (auto simp: parseInt_show_nat)
  then show ?thesis
    unfolding toStableKey_def Let_def js_split_makeKey by (simp split: option.splits)
qed

lemma fromStableKey_stable:
  "fromStableKey ms (f @ '':'' @ show_nat e) =
     (case find (\<lambda>m. filename m = f) ms of
        None \<Rightarrow> None
      | Some m \<Rightarrow> Some (makeKey (idx m) e))"
  by (simp add: fromStableKey_def lastIndexOf_append show_nat_no_colon makeKey_def
      split: option.splits)

lemma makeKey_3_42: "makeKey 3 42 = ''3:42''"
  by (simp add: makeKey_def show_nat.simps digit_char_def digit_chars_def)

lemma makeKey_7_42: "makeKey 7 42 = ''7:42''"
  by (simp add: makeKey_def show_nat.simps digit_char_def digit_chars_def)

lemma show_nat_inj: "show_nat a = show_nat b \<Longrightarrow> a = b"
  using decimal_show_nat by metis

lemma makeKey_same_index: "makeKey i e = makeKey j e \<Longrightarrow> i = j"
  by (simp add: makeKey_def show_nat_inj)

lemma find_unique_filename:
  assumes "distinct (map filename ms)" and "m \<in> set ms"
  shows "find (\<lambda>n. filename n = filename m) ms = Some m"
  using assms
proof (induction ms)
  case Nil
  then show ?case by simp
next
  case (Cons a ms)
  show ?case
  proof (cases "a = m")
    case True
    then show ?thesis by simp
  next
    case False
    then have m: "m \<in> set ms" using Cons.prems(2) by simp
    then have "filename a \<noteq> filename m" using Cons.prems(1) by force
    then show ?thesis using Cons m by simp
  qed
qed

text \<open>
  The claim as it stands fails when two loaded models came from files of the same name,
  which the viewer allows. Both are "loaded under the same filename" and the manifest holds
  \<^verbatim>\<open>{idx: 7, filename: 'F'}\<close>, yet the key \<^verbatim>\<open>7:42\<close> of the second model comes back as the key
  \<^verbatim>\<open>3:42\<close> of the first: \<^verbatim>\<open>fromStableKey\<close> takes the first model of that name.
\<close>

theorem shared_filename_counterexample:
  "makeKey 7 42 = ''7:42'' \<and>
   toStableKey same_name_models ''7:42'' = Some ''F:42'' \<and>
   fromStableKey same_name_models ''F:42'' = Some ''3:42'' \<and>
   Option.bind (toStableKey same_name_models (makeKey 7 42)) (fromStableKey same_name_models)
     \<noteq> Some (makeKey 7 42)"
proof -
  have t: "toStableKey same_name_models (makeKey 7 42) = Some (''F'' @ '':'' @ show_nat 42)"
    by (simp only: toStableKey_makeKey) (simp add: same_name_models_def)
  have f: "fromStableKey same_name_models (''F'' @ '':'' @ show_nat 42) = Some (makeKey 3 42)"
    by (simp only: fromStableKey_stable) (simp add: same_name_models_def)
  have s: "''F'' @ '':'' @ show_nat 42 = ''F:42''"
    by (simp add: show_nat.simps digit_char_def digit_chars_def)
  show ?thesis
    using t f unfolding s makeKey_7_42 makeKey_3_42 by simp
qed

text \<open>
  C6, amended. An element with native id \<open>e\<close> of the model \<open>m\<close> loaded under session index
  \<open>i\<close> has the composite key \<^verbatim>\<open>makeKey(i, e)\<close>. \<^verbatim>\<open>toStableKey\<close> against the manifest \<open>ms\<close>
  followed by \<^verbatim>\<open>fromStableKey\<close> against a manifest \<open>ms'\<close> returns that composite key if and
  only if the first model of \<open>ms'\<close> that carries the file name of \<open>m\<close> has the session index
  \<open>i\<close>. In particular the round trip against one manifest is lossless for every loaded
  element when no two loaded models share a file name.
\<close>

theorem stable_key_round_trip:
  assumes "find (\<lambda>m. idx m = i) ms = Some m"
  shows "((Option.bind (toStableKey ms (makeKey i e)) (fromStableKey ms') = Some (makeKey i e)) =
            (\<exists>n. find (\<lambda>n. filename n = filename m) ms' = Some n \<and> idx n = i)) \<and>
         (distinct (map filename ms) \<longrightarrow>
            Option.bind (toStableKey ms (makeKey i e)) (fromStableKey ms) = Some (makeKey i e))"
proof -
  have to: "toStableKey ms (makeKey i e) = Some (filename m @ '':'' @ show_nat e)"
    using assms by (simp only: toStableKey_makeKey option.case)
  have trip: "Option.bind (toStableKey ms (makeKey i e)) (fromStableKey ms'') =
      (case find (\<lambda>n. filename n = filename m) ms'' of
         None \<Rightarrow> None
       | Some n \<Rightarrow> Some (makeKey (idx n) e))" for ms''
    unfolding to by (simp only: bind.bind_lunit fromStableKey_stable)
  have iff: "(Option.bind (toStableKey ms (makeKey i e)) (fromStableKey ms') = Some (makeKey i e)) =
      (\<exists>n. find (\<lambda>n. filename n = filename m) ms' = Some n \<and> idx n = i)"
    unfolding trip using makeKey_same_index by (auto split: option.splits)
  have same: "Option.bind (toStableKey ms (makeKey i e)) (fromStableKey ms) = Some (makeKey i e)"
    if d: "distinct (map filename ms)"
  proof -
    have m: "m \<in> set ms" "idx m = i"
      using assms by (auto simp: find_Some_iff)
    have "find (\<lambda>n. filename n = filename m) ms = Some m"
      using d m(1) by (rule find_unique_filename)
    then show ?thesis unfolding trip using m(2) by simp
  qed
  show ?thesis using iff same by blast
qed

theorem stable_key_round_trip_witness:
  "find (\<lambda>m. idx m = 3) [\<lparr>idx = 3, filename = ''F''\<rparr>] = Some \<lparr>idx = 3, filename = ''F''\<rparr> \<and>
   distinct (map filename [\<lparr>idx = 3, filename = ''F''\<rparr>]) \<and>
   Option.bind (toStableKey [\<lparr>idx = 3, filename = ''F''\<rparr>] ''3:42'')
     (fromStableKey [\<lparr>idx = 3, filename = ''F''\<rparr>]) = Some ''3:42'' \<and> makeKey 3 42 = ''3:42''"
  using stable_key_round_trip [of 3 "[\<lparr>idx = 3, filename = ''F''\<rparr>]" "\<lparr>idx = 3, filename = ''F''\<rparr>"
      42 "[\<lparr>idx = 3, filename = ''F''\<rparr>]"]
  by (simp add: makeKey_3_42)


section \<open>Persistence of overrides\<close>






















section \<open>Aggregation\<close>

lemma adds_ea: "adds_to ea q k 1"
  by (simp add: adds_to_def emptyAgg_def addToAgg_def)

lemma adds_keys: "adds_to keys_of q k {#k#}"
  by (simp add: adds_to_def keys_of_def emptyAgg_def addToAgg_def)

lemma obj_sum_Nil [simp]: "obj_sum m [] = 0"
  by (simp add: obj_sum_def)

lemma obj_sum_Cons [simp]: "obj_sum m (kv # obj) = m (snd kv) + obj_sum m obj"
  by (simp add: obj_sum_def)

lemma obj_set_sum_None:
  "map_of obj k = None \<Longrightarrow> obj_sum m (obj_set obj k v) = obj_sum m obj + m v"
  by (induction obj) (auto simp: add.assoc split: if_splits)

lemma obj_set_sum_Some:
  "map_of obj k = Some v \<Longrightarrow> m v' = m v + \<delta> \<Longrightarrow>
   obj_sum m (obj_set obj k v') = obj_sum m obj + \<delta>"
proof (induction obj)
  case Nil
  then show ?case by simp
next
  case (Cons kv obj)
  obtain k0 v0 where kv: "kv = (k0, v0)" by (cases kv)
  show ?case
  proof (cases "k0 = k")
    case True
    then show ?thesis using Cons.prems by (simp add: kv add.commute add.left_commute)
  next
    case False
    then show ?thesis using Cons by (simp add: kv add.assoc)
  qed
qed

lemma obj_modify_sum:
  assumes "obj_modify obj k d g = Inr obj'"
    and "m d = 0"
    and "\<And>v v'. g v = Inr v' \<Longrightarrow> m v' = m v + \<delta>"
  shows "obj_sum m obj' = obj_sum m obj + \<delta>"
proof (cases "map_of obj k")
  case None
  with assms(1) obtain v' where v': "g d = Inr v'" "obj' = obj_set obj k v'"
    by (auto simp: obj_modify_def split: if_splits sum.splits)
  have "m v' = \<delta>" using assms(3) [OF v'(1)] assms(2) by simp
  then show ?thesis using None v'(2) by (simp add: obj_set_sum_None)
next
  case (Some v)
  with assms(1) obtain v' where v': "g v = Inr v'" "obj' = obj_set obj k v'"
    by (auto simp: obj_modify_def split: sum.splits)
  have "m v' = m v + \<delta>" using assms(3) [OF v'(1)] .
  then show ?thesis using Some v'(2) by (simp add: obj_set_sum_Some)
qed

lemma set_obj_set: "set (obj_set obj k v) \<subseteq> insert (k, v) (set obj)"
  by (induction obj) (auto split: if_splits)

lemma map_of_is_entry: "map_of obj k = Some v \<Longrightarrow> (k, v) \<in> set obj"
  by (rule map_of_SomeD)

lemma obj_modify_all:
  assumes "obj_modify obj k d g = Inr obj'"
    and "P d"
    and "\<forall>kv \<in> set obj. P (snd kv)"
    and "\<And>v v'. P v \<Longrightarrow> g v = Inr v' \<Longrightarrow> P v'"
  shows "\<forall>kv \<in> set obj'. P (snd kv)"
proof -
  obtain v v' where v: "P v" "g v = Inr v'" "obj' = obj_set obj k v'"
  proof (cases "map_of obj k")
    case None
    with assms(1) obtain v' where "g d = Inr v'" "obj' = obj_set obj k v'"
      by (auto simp: obj_modify_def split: if_splits sum.splits)
    then show ?thesis using that assms(2) by blast
  next
    case (Some v)
    with assms(1) obtain v' where "g v = Inr v'" "obj' = obj_set obj k v'"
      by (auto simp: obj_modify_def split: sum.splits)
    moreover have "P v" using map_of_SomeD [OF Some] assms(3) by fastforce
    ultimately show ?thesis using that by blast
  qed
  have "P v'" using assms(4) [OF v(1,2)] .
  then show ?thesis using set_obj_set [of obj k v'] assms(3) v(3) by fastforce
qed

lemma spatial_node_step:
  fixes node :: storey_node
  assumes "(case obj_modify (types node) t emptyAgg (\<lambda>a. Inr (addToAgg a q k)) of
              Inl e \<Rightarrow> Inl e
            | Inr ts \<Rightarrow> Inr (node\<lparr>storey_agg := addToAgg (storey_agg node) q k, types := ts\<rparr>))
           = Inr node'"
    and "adds_to f q k \<delta>"
  shows "f (storey_agg node') = f (storey_agg node) + \<delta>"
    and "storey_leaves f node' = storey_leaves f node + \<delta>"
proof -
  from assms(1) obtain ts where
    ts: "obj_modify (types node) t emptyAgg (\<lambda>a. Inr (addToAgg a q k)) = Inr ts"
    and node': "node' = node\<lparr>storey_agg := addToAgg (storey_agg node) q k, types := ts\<rparr>"
    by (auto split: sum.splits)
  show "f (storey_agg node') = f (storey_agg node) + \<delta>"
    using assms(2) by (simp add: node' adds_to_def)
  have "obj_sum f ts = obj_sum f (types node) + \<delta>"
    using ts by (rule obj_modify_sum) (use assms(2) in \<open>auto simp: adds_to_def\<close>)
  then show "storey_leaves f node' = storey_leaves f node + \<delta>"
    by (simp add: storey_leaves_def node')
qed

lemma spatial_step_conserved:
  assumes "spatial_step kd (tree, totals) = Inr (tree', totals')"
    and "adds_to f (extractQuantities (props (snd kd))) (fst kd) \<delta>"
  shows "spatial_conserved f tree totals \<Longrightarrow> spatial_conserved f tree' totals'"
    and "obj_sum (storey_leaves f) tree' = obj_sum (storey_leaves f) tree + \<delta>"
proof -
  define q where "q = extractQuantities (props (snd kd))"
  define s where "s = (if storey (snd kd) = [] then ''Unassigned'' else storey (snd kd))"
  define t where "t = (if ifcType (snd kd) = [] then ''UNKNOWN'' else ifcType (snd kd))"
  define g where "g = (\<lambda>node :: storey_node.
      case obj_modify (types node) t emptyAgg (\<lambda>a. Inr (addToAgg a q (fst kd))) of
        Inl e \<Rightarrow> Inl e
      | Inr ts \<Rightarrow> Inr (node\<lparr>storey_agg := addToAgg (storey_agg node) q (fst kd), types := ts\<rparr>))"
  have add: "adds_to f q (fst kd) \<delta>" using assms(2) by (simp add: q_def)
  from assms(1) have "(case obj_modify tree s empty_storey_node g of
        Inl e \<Rightarrow> Inl e
      | Inr tr \<Rightarrow> Inr (tr, addToAgg totals q (fst kd))) = Inr (tree', totals')"
    unfolding spatial_step_def Let_def q_def s_def t_def g_def by (simp only: fst_conv snd_conv)
  then have tree': "obj_modify tree s empty_storey_node g = Inr tree'"
    and totals': "totals' = addToAgg totals q (fst kd)"
    by (auto split: sum.splits)
  have g1: "f (storey_agg n') = f (storey_agg n) + \<delta>"
    and g2: "storey_leaves f n' = storey_leaves f n + \<delta>" if "g n = Inr n'" for n n'
    using spatial_node_step [OF that [unfolded g_def] add] by simp_all
  have e0: "f (storey_agg empty_storey_node) = 0" "storey_leaves f empty_storey_node = 0"
    using add by (simp_all add: empty_storey_node_def storey_leaves_def adds_to_def)
  show sum: "obj_sum (storey_leaves f) tree' = obj_sum (storey_leaves f) tree + \<delta>"
    using tree' e0(2) g2 by (rule obj_modify_sum)
  assume c: "spatial_conserved f tree totals"
  have "\<forall>kv \<in> set tree'. f (storey_agg (snd kv)) = storey_leaves f (snd kv)"
  proof (rule obj_modify_all [OF tree'])
    show "f (storey_agg empty_storey_node) = storey_leaves f empty_storey_node"
      using e0 by simp
    show "\<forall>kv \<in> set tree. f (storey_agg (snd kv)) = storey_leaves f (snd kv)"
      using c by (simp add: spatial_conserved_def list_all_iff)
    show "f (storey_agg v') = storey_leaves f v'"
      if "f (storey_agg v) = storey_leaves f v" "g v = Inr v'" for v v'
      using g1 [OF that(2)] g2 [OF that(2)] that(1) by simp
  qed
  moreover have "f totals' = f totals + \<delta>"
    using add by (simp add: totals' adds_to_def)
  ultimately show "spatial_conserved f tree' totals'"
    using c sum by (simp add: spatial_conserved_def list_all_iff)
qed

lemma spatial_loop_conserved:
  assumes "spatial_loop es acc = Inr acc'"
    and "spatial_conserved f (fst acc) (snd acc)"
    and "\<And>q k. adds_to f q k (d k)"
  shows "spatial_conserved f (fst acc') (snd acc')"
  using assms(1,2)
proof (induction es arbitrary: acc)
  case Nil
  then show ?case by simp
next
  case (Cons kd es)
  from Cons.prems(1) obtain mid where
    mid: "spatial_step kd acc = Inr mid" and rest: "spatial_loop es mid = Inr acc'"
    by (auto split: sum.splits)
  have step: "spatial_step kd (fst acc, snd acc) = Inr (fst mid, snd mid)"
    using mid by simp
  have "spatial_conserved f (fst mid) (snd mid)"
    using spatial_step_conserved(1) [OF step assms(3)] Cons.prems(2) by simp
  then show ?case using Cons.IH [OF rest] by simp
qed

lemma spatial_loop_keys:
  assumes "spatial_loop es acc = Inr acc'"
  shows "obj_sum (storey_leaves keys_of) (fst acc') =
         obj_sum (storey_leaves keys_of) (fst acc) + mset (map fst es)"
  using assms
proof (induction es arbitrary: acc)
  case Nil
  then show ?case by simp
next
  case (Cons kd es)
  from Cons.prems(1) obtain mid where
    mid: "spatial_step kd acc = Inr mid" and rest: "spatial_loop es mid = Inr acc'"
    by (auto split: sum.splits)
  have step: "spatial_step kd (fst acc, snd acc) = Inr (fst mid, snd mid)"
    using mid by simp
  have "obj_sum (storey_leaves keys_of) (fst mid) =
        obj_sum (storey_leaves keys_of) (fst acc) + {#fst kd#}"
    using spatial_step_conserved(2) [OF step adds_keys] .
  then show ?case using Cons.IH [OF rest] by simp
qed

lemma aggregateSpatial_conserved:
  assumes "aggregateSpatial es = Inr (tree, totals)"
  shows "spatial_conserved ea tree totals"
    and "spatial_conserved keys_of tree totals"
    and "obj_sum (storey_leaves keys_of) tree = mset (map fst es)"
proof -
  have loop: "spatial_loop es ([], emptyAgg) = Inr (tree, totals)"
    using assms by (simp add: aggregateSpatial_def)
  have "spatial_conserved ea (fst ([], emptyAgg)) (snd ([], emptyAgg))"
    by (simp add: spatial_conserved_def emptyAgg_def)
  with loop have "spatial_conserved ea (fst (tree, totals)) (snd (tree, totals))"
    by (rule spatial_loop_conserved) (rule adds_ea)
  then show "spatial_conserved ea tree totals" by simp
  have "spatial_conserved keys_of (fst ([], emptyAgg)) (snd ([], emptyAgg))"
    by (simp add: spatial_conserved_def emptyAgg_def keys_of_def)
  with loop have "spatial_conserved keys_of (fst (tree, totals)) (snd (tree, totals))"
    by (rule spatial_loop_conserved) (rule adds_keys)
  then show "spatial_conserved keys_of tree totals" by simp
  show "obj_sum (storey_leaves keys_of) tree = mset (map fst es)"
    using spatial_loop_keys [of es "([], emptyAgg)" "(tree, totals)"] assms
    by (simp add: aggregateSpatial_def)
qed

lemma l2_node_step:
  fixes n2 :: "aggregate uf_node"
  assumes "(case obj_modify (children n2) l3 emptyAgg (\<lambda>a. Inr (addToAgg a q k)) of
              Inl e \<Rightarrow> Inl e
            | Inr c3 \<Rightarrow> Inr (n2\<lparr>agg := addToAgg (agg n2) q k, children := c3\<rparr>)) = Inr n2'"
    and "adds_to f q k \<delta>"
  shows "f (agg n2') = f (agg n2) + \<delta>"
    and "l2_leaves f n2' = l2_leaves f n2 + \<delta>"
proof -
  from assms(1) obtain c3 where
    c3: "obj_modify (children n2) l3 emptyAgg (\<lambda>a. Inr (addToAgg a q k)) = Inr c3"
    and n2': "n2' = n2\<lparr>agg := addToAgg (agg n2) q k, children := c3\<rparr>"
    by (auto split: sum.splits)
  show "f (agg n2') = f (agg n2) + \<delta>"
    using assms(2) by (simp add: n2' adds_to_def)
  have "obj_sum f c3 = obj_sum f (children n2) + \<delta>"
    using c3 by (rule obj_modify_sum) (use assms(2) in \<open>auto simp: adds_to_def\<close>)
  then show "l2_leaves f n2' = l2_leaves f n2 + \<delta>"
    by (simp add: l2_leaves_def n2')
qed

lemma l1_node_step:
  fixes n1 :: "aggregate uf_node uf_node"
  assumes "(case obj_modify (children n1) l2 empty_uf_node
                (\<lambda>n2. case obj_modify (children n2) l3 emptyAgg (\<lambda>a. Inr (addToAgg a q k)) of
                         Inl e \<Rightarrow> Inl e
                       | Inr c3 \<Rightarrow> Inr (n2\<lparr>agg := addToAgg (agg n2) q k, children := c3\<rparr>)) of
              Inl e \<Rightarrow> Inl e
            | Inr c2 \<Rightarrow> Inr (n1\<lparr>agg := addToAgg (agg n1) q k, children := c2\<rparr>)) = Inr n1'"
    and "adds_to f q k \<delta>"
  shows "f (agg n1') = f (agg n1) + \<delta>"
    and "l1_leaves f n1' = l1_leaves f n1 + \<delta>"
    and "list_all (\<lambda>kv2. f (agg (snd kv2)) = l2_leaves f (snd kv2)) (children n1) \<Longrightarrow>
         list_all (\<lambda>kv2. f (agg (snd kv2)) = l2_leaves f (snd kv2)) (children n1')"
proof -
  define g2 where "g2 = (\<lambda>n2 :: aggregate uf_node.
      case obj_modify (children n2) l3 emptyAgg (\<lambda>a. Inr (addToAgg a q k)) of
        Inl e \<Rightarrow> Inl e
      | Inr c3 \<Rightarrow> Inr (n2\<lparr>agg := addToAgg (agg n2) q k, children := c3\<rparr>))"
  from assms(1) obtain c2 where
    c2: "obj_modify (children n1) l2 empty_uf_node g2 = Inr c2"
    and n1': "n1' = n1\<lparr>agg := addToAgg (agg n1) q k, children := c2\<rparr>"
    unfolding g2_def by (auto split: sum.splits)
  have s1: "f (agg n') = f (agg n) + \<delta>"
    and s2: "l2_leaves f n' = l2_leaves f n + \<delta>" if "g2 n = Inr n'" for n n'
    using l2_node_step [OF that [unfolded g2_def] assms(2)] by simp_all
  have e0: "f (agg (empty_uf_node :: aggregate uf_node)) = 0"
    "l2_leaves f empty_uf_node = 0"
    using assms(2) by (simp_all add: empty_uf_node_def l2_leaves_def adds_to_def)
  show "f (agg n1') = f (agg n1) + \<delta>"
    using assms(2) by (simp add: n1' adds_to_def)
  have "obj_sum (l2_leaves f) c2 = obj_sum (l2_leaves f) (children n1) + \<delta>"
    using c2 e0(2) s2 by (rule obj_modify_sum)
  then show "l1_leaves f n1' = l1_leaves f n1 + \<delta>"
    by (simp add: l1_leaves_def n1')
  assume a: "list_all (\<lambda>kv2. f (agg (snd kv2)) = l2_leaves f (snd kv2)) (children n1)"
  have "\<forall>kv \<in> set c2. f (agg (snd kv)) = l2_leaves f (snd kv)"
  proof (rule obj_modify_all [OF c2])
    show "f (agg (empty_uf_node :: aggregate uf_node)) = l2_leaves f empty_uf_node"
      using e0 by simp
    show "\<forall>kv \<in> set (children n1). f (agg (snd kv)) = l2_leaves f (snd kv)"
      using a by (simp add: list_all_iff)
    show "f (agg v') = l2_leaves f v'" if "f (agg v) = l2_leaves f v" "g2 v = Inr v'" for v v'
      using s1 [OF that(2)] s2 [OF that(2)] that(1) by simp
  qed
  then show "list_all (\<lambda>kv2. f (agg (snd kv2)) = l2_leaves f (snd kv2)) (children n1')"
    by (simp add: n1' list_all_iff)
qed

lemma uniformat_step_cases:
  assumes "uniformat_step cls kd (tree, totals, uncl) = Inr (tree', totals', uncl')"
  obtains
    (unclassified) "tree' = tree"
      "totals' = addToAgg totals (extractQuantities (props (snd kd))) (fst kd)"
      "uncl' = addToAgg uncl (extractQuantities (props (snd kd))) (fst kd)"
  | (classified) l3 where
      "obj_modify tree (take 1 l3) empty_uf_node
         (\<lambda>n1. case obj_modify (children n1) (take 3 l3) empty_uf_node
                  (\<lambda>n2. case obj_modify (children n2) l3 emptyAgg
                           (\<lambda>a. Inr (addToAgg a (extractQuantities (props (snd kd))) (fst kd))) of
                          Inl e \<Rightarrow> Inl e
                        | Inr c3 \<Rightarrow>
                            Inr (n2\<lparr>agg := addToAgg (agg n2)
                                          (extractQuantities (props (snd kd))) (fst kd),
                                    children := c3\<rparr>)) of
                   Inl e \<Rightarrow> Inl e
                 | Inr c2 \<Rightarrow>
                     Inr (n1\<lparr>agg := addToAgg (agg n1)
                                   (extractQuantities (props (snd kd))) (fst kd),
                             children := c2\<rparr>)) = Inr tree'"
      "totals' = addToAgg totals (extractQuantities (props (snd kd))) (fst kd)"
      "uncl' = uncl"
proof (cases "cls (fst kd)")
  case None
  then show ?thesis using assms unclassified by (simp add: uniformat_step_def Let_def)
next
  case (Some c)
  show ?thesis
  proof (cases "truthy (code c)")
    case False
    then show ?thesis using assms Some unclassified by (simp add: uniformat_step_def Let_def)
  next
    case True
    then obtain l3 where l3: "code c = JStr l3"
      using assms Some by (cases "code c") (simp_all add: uniformat_step_def Let_def)
    show ?thesis
    proof (rule classified [of l3])
      show "obj_modify tree (take 1 l3) empty_uf_node
         (\<lambda>n1. case obj_modify (children n1) (take 3 l3) empty_uf_node
                  (\<lambda>n2. case obj_modify (children n2) l3 emptyAgg
                           (\<lambda>a. Inr (addToAgg a (extractQuantities (props (snd kd))) (fst kd))) of
                          Inl e \<Rightarrow> Inl e
                        | Inr c3 \<Rightarrow>
                            Inr (n2\<lparr>agg := addToAgg (agg n2)
                                          (extractQuantities (props (snd kd))) (fst kd),
                                    children := c3\<rparr>)) of
                   Inl e \<Rightarrow> Inl e
                 | Inr c2 \<Rightarrow>
                     Inr (n1\<lparr>agg := addToAgg (agg n1)
                                   (extractQuantities (props (snd kd))) (fst kd),
                             children := c2\<rparr>)) = Inr tree'"
        using assms Some True l3
        by (simp add: uniformat_step_def Let_def split: sum.splits)
      show "totals' = addToAgg totals (extractQuantities (props (snd kd))) (fst kd)"
        using assms Some True l3
        by (simp add: uniformat_step_def Let_def split: sum.splits)
      show "uncl' = uncl"
        using assms Some True l3
        by (simp add: uniformat_step_def Let_def split: sum.splits)
    qed
  qed
qed

lemma uniformat_step_conserved:
  assumes "uniformat_step cls kd (tree, totals, uncl) = Inr (tree', totals', uncl')"
    and "adds_to f (extractQuantities (props (snd kd))) (fst kd) \<delta>"
  shows "uniformat_conserved f tree totals uncl \<Longrightarrow> uniformat_conserved f tree' totals' uncl'"
    and "obj_sum (l1_leaves f) tree' + f uncl' = obj_sum (l1_leaves f) tree + f uncl + \<delta>"
proof -
  define q where "q = extractQuantities (props (snd kd))"
  have add: "adds_to f q (fst kd) \<delta>" using assms(2) by (simp add: q_def)
  have tot: "f (addToAgg a q (fst kd)) = f a + \<delta>" for a
    using add by (simp add: adds_to_def)
  from assms(1) show sum:
    "obj_sum (l1_leaves f) tree' + f uncl' = obj_sum (l1_leaves f) tree + f uncl + \<delta>"
  proof (cases rule: uniformat_step_cases)
    case unclassified
    then show ?thesis using tot by (simp add: q_def add.assoc)
  next
    case (classified l3)
    have "obj_sum (l1_leaves f) tree' = obj_sum (l1_leaves f) tree + \<delta>"
    proof (rule obj_modify_sum [OF classified(1)])
      show "l1_leaves f (empty_uf_node :: aggregate uf_node uf_node) = 0"
        by (simp add: l1_leaves_def empty_uf_node_def)
    next
      fix n1 n1' :: "aggregate uf_node uf_node"
      assume "(case obj_modify (children n1) (take 3 l3) empty_uf_node
                  (\<lambda>n2. case obj_modify (children n2) l3 emptyAgg
                           (\<lambda>a. Inr (addToAgg a (extractQuantities (props (snd kd))) (fst kd))) of
                          Inl e \<Rightarrow> Inl e
                        | Inr c3 \<Rightarrow>
                            Inr (n2\<lparr>agg := addToAgg (agg n2)
                                          (extractQuantities (props (snd kd))) (fst kd),
                                    children := c3\<rparr>)) of
                   Inl e \<Rightarrow> Inl e
                 | Inr c2 \<Rightarrow>
                     Inr (n1\<lparr>agg := addToAgg (agg n1)
                                   (extractQuantities (props (snd kd))) (fst kd),
                             children := c2\<rparr>)) = Inr n1'"
      then show "l1_leaves f n1' = l1_leaves f n1 + \<delta>"
        using assms(2) by (rule l1_node_step(2))
    qed
    then show ?thesis using classified(3) by (simp add: add.commute add.left_commute)
  qed
  assume c: "uniformat_conserved f tree totals uncl"
  have ftot: "f totals' = f totals + \<delta>"
    using assms(1) by (cases rule: uniformat_step_cases) (simp_all add: tot [unfolded q_def])
  have "\<forall>kv \<in> set tree'. f (agg (snd kv)) = l1_leaves f (snd kv) \<and>
          list_all (\<lambda>kv2. f (agg (snd kv2)) = l2_leaves f (snd kv2)) (children (snd kv))"
    using assms(1)
  proof (cases rule: uniformat_step_cases)
    case unclassified
    then show ?thesis using c by (simp add: uniformat_conserved_def list_all_iff)
  next
    case (classified l3)
    show ?thesis
    proof (rule obj_modify_all [OF classified(1)])
      have "f emptyAgg = 0" using add by (simp add: adds_to_def)
      then show "f (agg (empty_uf_node :: aggregate uf_node uf_node)) =
            l1_leaves f empty_uf_node \<and>
            list_all (\<lambda>kv2. f (agg (snd kv2)) = l2_leaves f (snd kv2))
              (children (empty_uf_node :: aggregate uf_node uf_node))"
        by (simp add: l1_leaves_def empty_uf_node_def)
      show "\<forall>kv \<in> set tree. f (agg (snd kv)) = l1_leaves f (snd kv) \<and>
            list_all (\<lambda>kv2. f (agg (snd kv2)) = l2_leaves f (snd kv2)) (children (snd kv))"
        using c by (simp add: uniformat_conserved_def list_all_iff)
    next
      fix n1 n1' :: "aggregate uf_node uf_node"
      assume p: "f (agg n1) = l1_leaves f n1 \<and>
            list_all (\<lambda>kv2. f (agg (snd kv2)) = l2_leaves f (snd kv2)) (children n1)"
      assume g: "(case obj_modify (children n1) (take 3 l3) empty_uf_node
                  (\<lambda>n2. case obj_modify (children n2) l3 emptyAgg
                           (\<lambda>a. Inr (addToAgg a (extractQuantities (props (snd kd))) (fst kd))) of
                          Inl e \<Rightarrow> Inl e
                        | Inr c3 \<Rightarrow>
                            Inr (n2\<lparr>agg := addToAgg (agg n2)
                                          (extractQuantities (props (snd kd))) (fst kd),
                                    children := c3\<rparr>)) of
                   Inl e \<Rightarrow> Inl e
                 | Inr c2 \<Rightarrow>
                     Inr (n1\<lparr>agg := addToAgg (agg n1)
                                   (extractQuantities (props (snd kd))) (fst kd),
                             children := c2\<rparr>)) = Inr n1'"
      show "f (agg n1') = l1_leaves f n1' \<and>
            list_all (\<lambda>kv2. f (agg (snd kv2)) = l2_leaves f (snd kv2)) (children n1')"
        using l1_node_step(1) [OF g assms(2)] l1_node_step(2) [OF g assms(2)]
          l1_node_step(3) [OF g assms(2)] p by simp
    qed
  qed
  then show "uniformat_conserved f tree' totals' uncl'"
    using c sum ftot by (simp add: uniformat_conserved_def list_all_iff)
qed

lemma uniformat_loop_conserved:
  assumes "uniformat_loop cls es acc = Inr acc'"
    and "uniformat_conserved f (fst acc) (fst (snd acc)) (snd (snd acc))"
    and "\<And>q k. adds_to f q k (d k)"
  shows "uniformat_conserved f (fst acc') (fst (snd acc')) (snd (snd acc'))"
  using assms(1,2)
proof (induction es arbitrary: acc)
  case Nil
  then show ?case by simp
next
  case (Cons kd es)
  from Cons.prems(1) obtain mid where
    mid: "uniformat_step cls kd acc = Inr mid" and rest: "uniformat_loop cls es mid = Inr acc'"
    by (auto split: sum.splits)
  have step: "uniformat_step cls kd (fst acc, fst (snd acc), snd (snd acc)) =
      Inr (fst mid, fst (snd mid), snd (snd mid))"
    using mid by simp
  have "uniformat_conserved f (fst mid) (fst (snd mid)) (snd (snd mid))"
    using uniformat_step_conserved(1) [OF step assms(3)] Cons.prems(2) by simp
  then show ?case using Cons.IH [OF rest] by simp
qed

lemma uniformat_loop_keys:
  assumes "uniformat_loop cls es acc = Inr acc'"
  shows "obj_sum (l1_leaves keys_of) (fst acc') + keys_of (snd (snd acc')) =
         obj_sum (l1_leaves keys_of) (fst acc) + keys_of (snd (snd acc)) + mset (map fst es)"
  using assms
proof (induction es arbitrary: acc)
  case Nil
  then show ?case by simp
next
  case (Cons kd es)
  from Cons.prems(1) obtain mid where
    mid: "uniformat_step cls kd acc = Inr mid" and rest: "uniformat_loop cls es mid = Inr acc'"
    by (auto split: sum.splits)
  have step: "uniformat_step cls kd (fst acc, fst (snd acc), snd (snd acc)) =
      Inr (fst mid, fst (snd mid), snd (snd mid))"
    using mid by simp
  have "obj_sum (l1_leaves keys_of) (fst mid) + keys_of (snd (snd mid)) =
        obj_sum (l1_leaves keys_of) (fst acc) + keys_of (snd (snd acc)) + {#fst kd#}"
    using uniformat_step_conserved(2) [OF step adds_keys] .
  then show ?case using Cons.IH [OF rest] by simp
qed

lemma aggregateUniformat_conserved:
  assumes "aggregateUniformat es cls = Inr (tree, totals, unclassified)"
  shows "uniformat_conserved ea tree totals unclassified"
    and "uniformat_conserved keys_of tree totals unclassified"
    and "obj_sum (l1_leaves keys_of) tree + keys_of unclassified = mset (map fst es)"
proof -
  have loop: "uniformat_loop cls es ([], emptyAgg, emptyAgg) = Inr (tree, totals, unclassified)"
    using assms by (simp add: aggregateUniformat_def)
  have "uniformat_conserved ea (fst ([], emptyAgg, emptyAgg))
      (fst (snd ([], emptyAgg, emptyAgg))) (snd (snd ([], emptyAgg, emptyAgg)))"
    by (simp add: uniformat_conserved_def emptyAgg_def)
  with loop have "uniformat_conserved ea (fst (tree, totals, unclassified))
      (fst (snd (tree, totals, unclassified))) (snd (snd (tree, totals, unclassified)))"
    by (rule uniformat_loop_conserved) (rule adds_ea)
  then show "uniformat_conserved ea tree totals unclassified" by simp
  have "uniformat_conserved keys_of (fst ([], emptyAgg, emptyAgg))
      (fst (snd ([], emptyAgg, emptyAgg))) (snd (snd ([], emptyAgg, emptyAgg)))"
    by (simp add: uniformat_conserved_def emptyAgg_def keys_of_def)
  with loop have "uniformat_conserved keys_of (fst (tree, totals, unclassified))
      (fst (snd (tree, totals, unclassified))) (snd (snd (tree, totals, unclassified)))"
    by (rule uniformat_loop_conserved) (rule adds_keys)
  then show "uniformat_conserved keys_of tree totals unclassified" by simp
  show "obj_sum (l1_leaves keys_of) tree + keys_of unclassified = mset (map fst es)"
    using uniformat_loop_keys [of cls es "([], emptyAgg, emptyAgg)"
        "(tree, totals, unclassified)"] assms
    by (simp add: aggregateUniformat_def keys_of_def emptyAgg_def)
qed

text \<open>Every aggregate is the running total of its own members.\<close>

lemma elements_fold_add:
  "elements (fold add_element xs a) = elements a @ map fst xs"
  by (induction xs arbitrary: a) (simp_all add: add_element_def addToAgg_def)

lemma elements_member_total:
  "elements (member_total es ks) = map fst (filter (\<lambda>kd. fst kd \<in> set ks) es)"
  by (simp add: member_total_def elements_fold_add emptyAgg_def)

lemma sums_members_keys: "sums_members p a \<Longrightarrow> set (elements a) \<subseteq> fst ` set p"
proof -
  assume "sums_members p a"
  then have "elements a = elements (member_total p (elements a))"
    by (simp add: sums_members_def)
  then have "elements a = map fst (filter (\<lambda>kd. fst kd \<in> set (elements a)) p)"
    by (simp only: elements_member_total)
  then have "set (elements a) = fst ` set (filter (\<lambda>kd. fst kd \<in> set (elements a)) p)"
    by (metis set_map)
  then show ?thesis by auto
qed

lemma sums_members_empty: "sums_members p emptyAgg"
  by (simp add: sums_members_def member_total_def emptyAgg_def)

lemma sums_members_keep:
  assumes "sums_members p a" and "fst kd \<notin> fst ` set p"
  shows "sums_members (p @ [kd]) a"
proof -
  have "fst kd \<notin> set (elements a)"
    using sums_members_keys [OF assms(1)] assms(2) by blast
  then have "member_total (p @ [kd]) (elements a) = member_total p (elements a)"
    by (simp add: member_total_def)
  then show ?thesis using assms(1) by (simp add: sums_members_def)
qed

lemma sums_members_add:
  assumes "sums_members p a" and "fst kd \<notin> fst ` set p"
  shows "sums_members (p @ [kd]) (add_element kd a)"
proof -
  have el: "elements (add_element kd a) = elements a @ [fst kd]"
    by (simp add: add_element_def addToAgg_def)
  have "fst x \<noteq> fst kd" if "x \<in> set p" for x
    using imageI [OF that, of fst] assms(2) by metis
  then have "filter (\<lambda>x. fst x \<in> set (elements a @ [fst kd])) p =
        filter (\<lambda>x. fst x \<in> set (elements a)) p"
    by (intro filter_cong) simp_all
  then have "member_total (p @ [kd]) (elements a @ [fst kd]) =
        add_element kd (member_total p (elements a))"
    by (simp add: member_total_def)
  then show ?thesis
    using assms(1) unfolding sums_members_def el by simp
qed

lemma obj_modify_step:
  assumes "obj_modify obj k d g = Inr obj'"
    and "P d"
    and "\<forall>kv \<in> set obj. P (snd kv)"
    and "\<And>v v'. P v \<Longrightarrow> g v = Inr v' \<Longrightarrow> Q v'"
    and "\<And>v. P v \<Longrightarrow> Q v"
  shows "\<forall>kv \<in> set obj'. Q (snd kv)"
proof -
  obtain v v' where v: "P v" "g v = Inr v'" "obj' = obj_set obj k v'"
  proof (cases "map_of obj k")
    case None
    with assms(1) obtain v' where "g d = Inr v'" "obj' = obj_set obj k v'"
      by (auto simp: obj_modify_def split: if_splits sum.splits)
    then show ?thesis using that assms(2) by blast
  next
    case (Some v)
    with assms(1) obtain v' where "g v = Inr v'" "obj' = obj_set obj k v'"
      by (auto simp: obj_modify_def split: sum.splits)
    moreover have "P v" using map_of_SomeD [OF Some] assms(3) by fastforce
    ultimately show ?thesis using that by blast
  qed
  have "Q v'" using assms(4) [OF v(1,2)] .
  moreover have "\<forall>kv \<in> set obj. Q (snd kv)" using assms(3,5) by blast
  ultimately show ?thesis using set_obj_set [of obj k v'] v(3) by fastforce
qed

lemma leaves_step:
  assumes "obj_modify obj t emptyAgg (\<lambda>a. Inr (addToAgg a q k)) = Inr obj'"
    and "P emptyAgg"
    and "list_all (\<lambda>kv. P (snd kv)) obj"
    and "\<And>a. P a \<Longrightarrow> Q (addToAgg a q k)"
    and "\<And>a. P a \<Longrightarrow> Q a"
  shows "list_all (\<lambda>kv. Q (snd kv)) obj'"
proof -
  have "\<forall>kv \<in> set obj'. Q (snd kv)"
  proof (rule obj_modify_step [OF assms(1), where P = P])
    show "P emptyAgg" by fact
    show "\<forall>kv \<in> set obj. P (snd kv)" using assms(3) by (simp add: list_all_iff)
    show "Q v'" if "P v" "Inr (addToAgg v q k) = Inr v'" for v v'
      using assms(4) [OF that(1)] that(2) by simp
    show "Q v" if "P v" for v using assms(5) that .
  qed
  then show ?thesis by (simp add: list_all_iff)
qed

lemma storey_all_mono: "storey_all P n \<Longrightarrow> (\<And>a. P a \<Longrightarrow> Q a) \<Longrightarrow> storey_all Q n"
  by (auto simp: storey_all_def list_all_iff)

lemma l2_all_mono: "l2_all P n \<Longrightarrow> (\<And>a. P a \<Longrightarrow> Q a) \<Longrightarrow> l2_all Q n"
  by (auto simp: l2_all_def list_all_iff)

lemma l1_all_mono:
  assumes "l1_all P n" and "\<And>a. P a \<Longrightarrow> Q a"
  shows "l1_all Q n"
proof -
  have "l2_all Q (snd kv)" if "kv \<in> set (children n)" for kv
  proof (rule l2_all_mono)
    show "l2_all P (snd kv)" using assms(1) that by (simp add: l1_all_def list_all_iff)
    show "Q a" if "P a" for a using assms(2) that .
  qed
  then show ?thesis using assms by (simp add: l1_all_def list_all_iff)
qed

lemma spatial_step_all:
  assumes "spatial_step kd (tree, totals) = Inr (tree', totals')"
    and "spatial_all P tree totals"
    and "P emptyAgg"
    and "\<And>a. P a \<Longrightarrow> Q (add_element kd a)"
    and "\<And>a. P a \<Longrightarrow> Q a"
  shows "spatial_all Q tree' totals'"
proof -
  define q where "q = extractQuantities (props (snd kd))"
  define s where "s = (if storey (snd kd) = [] then ''Unassigned'' else storey (snd kd))"
  define t where "t = (if ifcType (snd kd) = [] then ''UNKNOWN'' else ifcType (snd kd))"
  define g where "g = (\<lambda>node :: storey_node.
      case obj_modify (types node) t emptyAgg (\<lambda>a. Inr (addToAgg a q (fst kd))) of
        Inl e \<Rightarrow> Inl e
      | Inr ts \<Rightarrow> Inr (node\<lparr>storey_agg := addToAgg (storey_agg node) q (fst kd), types := ts\<rparr>))"
  have add: "Q (addToAgg a q (fst kd))" if "P a" for a
    using assms(4) [OF that] by (simp add: add_element_def q_def)
  from assms(1) have "(case obj_modify tree s empty_storey_node g of
        Inl e \<Rightarrow> Inl e
      | Inr tr \<Rightarrow> Inr (tr, addToAgg totals q (fst kd))) = Inr (tree', totals')"
    unfolding spatial_step_def Let_def q_def s_def t_def g_def by (simp only: fst_conv snd_conv)
  then have tree': "obj_modify tree s empty_storey_node g = Inr tree'"
    and totals': "totals' = addToAgg totals q (fst kd)"
    by (auto split: sum.splits)
  have node: "storey_all Q n'" if "storey_all P n" "g n = Inr n'" for n n'
  proof -
    from that(2) obtain ts where
      ts: "obj_modify (types n) t emptyAgg (\<lambda>a. Inr (addToAgg a q (fst kd))) = Inr ts"
      and n': "n' = n\<lparr>storey_agg := addToAgg (storey_agg n) q (fst kd), types := ts\<rparr>"
      unfolding g_def by (auto split: sum.splits)
    have "list_all (\<lambda>kv. Q (snd kv)) ts"
      using ts assms(3) _ add assms(5)
      by (rule leaves_step) (use that(1) in \<open>simp add: storey_all_def\<close>)
    moreover have "Q (addToAgg (storey_agg n) q (fst kd))"
      using add that(1) by (simp add: storey_all_def)
    ultimately show ?thesis by (simp add: storey_all_def n')
  qed
  have "\<forall>kv \<in> set tree'. storey_all Q (snd kv)"
  proof (rule obj_modify_step [OF tree', where P = "storey_all P"])
    show "storey_all P empty_storey_node"
      using assms(3) by (simp add: storey_all_def empty_storey_node_def)
    show "\<forall>kv \<in> set tree. storey_all P (snd kv)"
      using assms(2) by (simp add: spatial_all_def list_all_iff)
    show "storey_all Q v'" if "storey_all P v" "g v = Inr v'" for v v'
      using that by (rule node)
    show "storey_all Q v" if "storey_all P v" for v
      using that assms(5) by (rule storey_all_mono)
  qed
  moreover have "Q totals'"
    using add assms(2) by (simp add: totals' spatial_all_def)
  ultimately show ?thesis by (simp add: spatial_all_def list_all_iff)
qed

lemma spatial_loop_members:
  assumes "spatial_loop es acc = Inr acc'"
    and "spatial_all (sums_members p) (fst acc) (snd acc)"
    and "distinct (map fst (p @ es))"
  shows "spatial_all (sums_members (p @ es)) (fst acc') (snd acc')"
  using assms
proof (induction es arbitrary: p acc)
  case Nil
  then show ?case by simp
next
  case (Cons kd es)
  from Cons.prems(1) obtain mid where
    mid: "spatial_step kd acc = Inr mid" and rest: "spatial_loop es mid = Inr acc'"
    by (auto split: sum.splits)
  have step: "spatial_step kd (fst acc, snd acc) = Inr (fst mid, snd mid)"
    using mid by simp
  have new: "fst kd \<notin> fst ` set p" using Cons.prems(3) by auto
  have "spatial_all (sums_members (p @ [kd])) (fst mid) (snd mid)"
  proof (rule spatial_step_all [OF step Cons.prems(2)])
    show "sums_members p emptyAgg" by (rule sums_members_empty)
    show "sums_members (p @ [kd]) (add_element kd a)" if "sums_members p a" for a
      using that new by (rule sums_members_add)
    show "sums_members (p @ [kd]) a" if "sums_members p a" for a
      using that new by (rule sums_members_keep)
  qed
  moreover have "distinct (map fst ((p @ [kd]) @ es))" using Cons.prems(3) by simp
  ultimately have "spatial_all (sums_members ((p @ [kd]) @ es)) (fst acc') (snd acc')"
    by (rule Cons.IH [OF rest])
  then show ?case by simp
qed

lemma aggregateSpatial_members:
  assumes "aggregateSpatial es = Inr (tree, totals)" and "distinct (map fst es)"
  shows "spatial_all (sums_members es) tree totals"
  using spatial_loop_members [of es "([], emptyAgg)" "(tree, totals)" "[]"] assms
  by (simp add: aggregateSpatial_def spatial_all_def sums_members_empty)

lemma l1_step_all:
  fixes n1 :: "aggregate uf_node uf_node"
  assumes "(case obj_modify (children n1) l2 empty_uf_node
                (\<lambda>n2. case obj_modify (children n2) l3 emptyAgg (\<lambda>a. Inr (addToAgg a q k)) of
                         Inl e \<Rightarrow> Inl e
                       | Inr c3 \<Rightarrow> Inr (n2\<lparr>agg := addToAgg (agg n2) q k, children := c3\<rparr>)) of
              Inl e \<Rightarrow> Inl e
            | Inr c2 \<Rightarrow> Inr (n1\<lparr>agg := addToAgg (agg n1) q k, children := c2\<rparr>)) = Inr n1'"
    and "l1_all P n1"
    and "P emptyAgg"
    and "\<And>a. P a \<Longrightarrow> Q (addToAgg a q k)"
    and "\<And>a. P a \<Longrightarrow> Q a"
  shows "l1_all Q n1'"
proof -
  define g2 where "g2 = (\<lambda>n2 :: aggregate uf_node.
      case obj_modify (children n2) l3 emptyAgg (\<lambda>a. Inr (addToAgg a q k)) of
        Inl e \<Rightarrow> Inl e
      | Inr c3 \<Rightarrow> Inr (n2\<lparr>agg := addToAgg (agg n2) q k, children := c3\<rparr>))"
  from assms(1) obtain c2 where
    c2: "obj_modify (children n1) l2 empty_uf_node g2 = Inr c2"
    and n1': "n1' = n1\<lparr>agg := addToAgg (agg n1) q k, children := c2\<rparr>"
    unfolding g2_def by (auto split: sum.splits)
  have node: "l2_all Q n'" if "l2_all P n" "g2 n = Inr n'" for n n'
  proof -
    from that(2) obtain c3 where
      c3: "obj_modify (children n) l3 emptyAgg (\<lambda>a. Inr (addToAgg a q k)) = Inr c3"
      and n': "n' = n\<lparr>agg := addToAgg (agg n) q k, children := c3\<rparr>"
      unfolding g2_def by (auto split: sum.splits)
    have "list_all (\<lambda>kv. Q (snd kv)) c3"
      using c3 assms(3) _ assms(4,5)
      by (rule leaves_step) (use that(1) in \<open>simp add: l2_all_def\<close>)
    moreover have "Q (addToAgg (agg n) q k)"
      using assms(4) that(1) by (simp add: l2_all_def)
    ultimately show ?thesis by (simp add: l2_all_def n')
  qed
  have "\<forall>kv \<in> set c2. l2_all Q (snd kv)"
  proof (rule obj_modify_step [OF c2, where P = "l2_all P"])
    show "l2_all P empty_uf_node"
      using assms(3) by (simp add: l2_all_def empty_uf_node_def)
    show "\<forall>kv \<in> set (children n1). l2_all P (snd kv)"
      using assms(2) by (simp add: l1_all_def list_all_iff)
    show "l2_all Q v'" if "l2_all P v" "g2 v = Inr v'" for v v'
      using that by (rule node)
    show "l2_all Q v" if "l2_all P v" for v
      using that assms(5) by (rule l2_all_mono)
  qed
  moreover have "Q (addToAgg (agg n1) q k)"
    using assms(4) assms(2) by (simp add: l1_all_def)
  ultimately show ?thesis by (simp add: l1_all_def n1' list_all_iff)
qed

lemma uniformat_step_all:
  assumes "uniformat_step cls kd (tree, totals, uncl) = Inr (tree', totals', uncl')"
    and "uniformat_all P tree totals uncl"
    and "P emptyAgg"
    and "\<And>a. P a \<Longrightarrow> Q (add_element kd a)"
    and "\<And>a. P a \<Longrightarrow> Q a"
  shows "uniformat_all Q tree' totals' uncl'"
proof -
  have add: "Q (addToAgg a (extractQuantities (props (snd kd))) (fst kd))" if "P a" for a
    using assms(4) [OF that] by (simp add: add_element_def)
  have old: "\<forall>kv \<in> set tree. l1_all P (snd kv)" "P totals" "P uncl"
    using assms(2) by (simp_all add: uniformat_all_def list_all_iff)
  from assms(1) show ?thesis
  proof (cases rule: uniformat_step_cases)
    case unclassified
    have "l1_all Q (snd kv)" if "kv \<in> set tree" for kv
      using old(1) that assms(5) l1_all_mono by blast
    then show ?thesis
      using unclassified add old(2,3) by (simp add: uniformat_all_def list_all_iff)
  next
    case (classified l3)
    have "\<forall>kv \<in> set tree'. l1_all Q (snd kv)"
    proof (rule obj_modify_step [OF classified(1), where P = "l1_all P"])
      show "l1_all P (empty_uf_node :: aggregate uf_node uf_node)"
        using assms(3) by (simp add: l1_all_def empty_uf_node_def)
      show "\<forall>kv \<in> set tree. l1_all P (snd kv)" by (rule old(1))
    next
      fix n1 n1' :: "aggregate uf_node uf_node"
      assume p: "l1_all P n1"
      assume g: "(case obj_modify (children n1) (take 3 l3) empty_uf_node
                  (\<lambda>n2. case obj_modify (children n2) l3 emptyAgg
                           (\<lambda>a. Inr (addToAgg a (extractQuantities (props (snd kd))) (fst kd))) of
                          Inl e \<Rightarrow> Inl e
                        | Inr c3 \<Rightarrow>
                            Inr (n2\<lparr>agg := addToAgg (agg n2)
                                          (extractQuantities (props (snd kd))) (fst kd),
                                    children := c3\<rparr>)) of
                   Inl e \<Rightarrow> Inl e
                 | Inr c2 \<Rightarrow>
                     Inr (n1\<lparr>agg := addToAgg (agg n1)
                                   (extractQuantities (props (snd kd))) (fst kd),
                             children := c2\<rparr>)) = Inr n1'"
      show "l1_all Q n1'"
        using g p assms(3) add assms(5) by (rule l1_step_all)
    next
      fix n1 :: "aggregate uf_node uf_node"
      assume "l1_all P n1"
      then show "l1_all Q n1" using assms(5) by (rule l1_all_mono)
    qed
    then show ?thesis
      using classified(2,3) add old(2,3) assms(5)
      by (simp add: uniformat_all_def list_all_iff)
  qed
qed

lemma uniformat_loop_members:
  assumes "uniformat_loop cls es acc = Inr acc'"
    and "uniformat_all (sums_members p) (fst acc) (fst (snd acc)) (snd (snd acc))"
    and "distinct (map fst (p @ es))"
  shows "uniformat_all (sums_members (p @ es)) (fst acc') (fst (snd acc')) (snd (snd acc'))"
  using assms
proof (induction es arbitrary: p acc)
  case Nil
  then show ?case by simp
next
  case (Cons kd es)
  from Cons.prems(1) obtain mid where
    mid: "uniformat_step cls kd acc = Inr mid" and rest: "uniformat_loop cls es mid = Inr acc'"
    by (auto split: sum.splits)
  have step: "uniformat_step cls kd (fst acc, fst (snd acc), snd (snd acc)) =
      Inr (fst mid, fst (snd mid), snd (snd mid))"
    using mid by simp
  have new: "fst kd \<notin> fst ` set p" using Cons.prems(3) by auto
  have "uniformat_all (sums_members (p @ [kd])) (fst mid) (fst (snd mid)) (snd (snd mid))"
  proof (rule uniformat_step_all [OF step Cons.prems(2)])
    show "sums_members p emptyAgg" by (rule sums_members_empty)
    show "sums_members (p @ [kd]) (add_element kd a)" if "sums_members p a" for a
      using that new by (rule sums_members_add)
    show "sums_members (p @ [kd]) a" if "sums_members p a" for a
      using that new by (rule sums_members_keep)
  qed
  moreover have "distinct (map fst ((p @ [kd]) @ es))" using Cons.prems(3) by simp
  ultimately have "uniformat_all (sums_members ((p @ [kd]) @ es))
      (fst acc') (fst (snd acc')) (snd (snd acc'))"
    by (rule Cons.IH [OF rest])
  then show ?case by simp
qed

lemma aggregateUniformat_members:
  assumes "aggregateUniformat es cls = Inr (tree, totals, unclassified)"
    and "distinct (map fst es)"
  shows "uniformat_all (sums_members es) tree totals unclassified"
  using uniformat_loop_members [of cls es "([], emptyAgg, emptyAgg)"
      "(tree, totals, unclassified)" "[]"] assms
  by (simp add: aggregateUniformat_def uniformat_all_def sums_members_empty)

text \<open>
  The claim as it stands fails for the area, length and volume columns: every aggregate
  keeps its own running sum of doubles, and a node adds the contributions of its members
  in another grouping than its leaves do. For a door between two walls with areas of 1, 2
  and 8 square metres the storey holds \<^verbatim>\<open>(1c + 2c) + 8c = 118.40289999999999\<close> square feet
  (\<^verbatim>\<open>c = 10.7639\<close>), while its leaves hold \<^verbatim>\<open>1c + 8c = 96.8751\<close> and \<^verbatim>\<open>2c = 21.5278\<close>, whose sum
  is the double \<^verbatim>\<open>118.4029\<close>, whether it is taken exactly or in floating point.
\<close>

theorem rounded_sums_counterexample:
  "aggregateSpatial rounding_sample = Inr rounding_result \<and>
   sf (storey_agg (snd (hd (fst rounding_result)))) = 2082965844998383 / 17592186044416 \<and>
   storey_leaves sf (snd (hd (fst rounding_result))) = 8331863379993533 / 70368744177664 \<and>
   fadd (3408489564542809 / 35184372088832) (1514884250907915 / 70368744177664) =
     8331863379993533 / 70368744177664 \<and>
   \<not> spatial_conserved sf (fst rounding_result) (snd rounding_result)"
  by code_simp

text \<open>
  C1, amended. Whenever \<^verbatim>\<open>aggregateSpatial\<close> or \<^verbatim>\<open>aggregateUniformat\<close> returns a tree: the
  element count of every non-leaf node is the sum of the counts of the leaves beneath it,
  and its member keys are, as a multiset, the member keys of those leaves; the grand
  totals carry the count and the member keys of all leaves (with the unclassified bucket
  in classification mode); the member keys of all leaves (with the unclassified bucket)
  are the keys of the input elements, so that each key of the element map, whose keys are
  distinct, sits in exactly one leaf, once. The area, length and volume of every
  aggregate of the result (grand totals, unclassified bucket, node or leaf) are what
  \<^verbatim>\<open>addToAgg\<close> accumulates in floating point, in the order of the element map, from exactly
  the member elements of that aggregate: a node sums the same contributions as the leaves
  beneath it, in its own running sum.
\<close>

theorem aggregation_conservation:
  "(aggregateSpatial es = Inr (tree, totals) \<longrightarrow>
      spatial_conserved ea tree totals \<and>
      spatial_conserved keys_of tree totals \<and>
      obj_sum (storey_leaves keys_of) tree = mset (map fst es) \<and>
      (distinct (map fst es) \<longrightarrow>
         (\<forall>k \<in> fst ` set es. count (obj_sum (storey_leaves keys_of) tree) k = 1) \<and>
         spatial_all (sums_members es) tree totals)) \<and>
   (aggregateUniformat es cls = Inr (utree, utotals, unclassified) \<longrightarrow>
      uniformat_conserved ea utree utotals unclassified \<and>
      uniformat_conserved keys_of utree utotals unclassified \<and>
      obj_sum (l1_leaves keys_of) utree + keys_of unclassified = mset (map fst es) \<and>
      (distinct (map fst es) \<longrightarrow>
         (\<forall>k \<in> fst ` set es.
             count (obj_sum (l1_leaves keys_of) utree + keys_of unclassified) k = 1) \<and>
         uniformat_all (sums_members es) utree utotals unclassified))"
proof -
  have once: "\<forall>k \<in> fst ` set es. count M k = 1"
    if "M = mset (map fst es)" "distinct (map fst es)" for M
    using that by (simp add: distinct_count_atmost_1)
  show ?thesis
    using aggregateSpatial_conserved [of es tree totals]
      aggregateUniformat_conserved [of es cls utree utotals unclassified]
      aggregateSpatial_members [of es tree totals]
      aggregateUniformat_members [of es cls utree utotals unclassified]
      once [of "obj_sum (storey_leaves keys_of) tree"]
      once [of "obj_sum (l1_leaves keys_of) utree + keys_of unclassified"]
    by blast
qed

text \<open>
  The aggregation returns a tree unless a storey name, a type name or a code is a name
  that every object inherits.
\<close>

lemma obj_modify_returns:
  assumes "\<not> inherited k" and "\<And>v. \<exists>v'. g v = Inr v'"
  shows "\<exists>obj'. obj_modify obj k d g = Inr obj'"
proof (cases "map_of obj k")
  case None
  obtain v' where "g d = Inr v'" using assms(2) by blast
  then show ?thesis using None assms(1) by (simp add: obj_modify_def)
next
  case (Some v)
  obtain v' where "g v = Inr v'" using assms(2) by blast
  then show ?thesis using Some by (simp add: obj_modify_def)
qed

lemma spatial_step_returns:
  assumes "\<not> inherited (storey_key (snd kd))" and "\<not> inherited (type_key (snd kd))"
  shows "\<exists>r. spatial_step kd acc = Inr r"
proof -
  define q where "q = extractQuantities (props (snd kd))"
  define g where "g = (\<lambda>node :: storey_node.
      case obj_modify (types node) (type_key (snd kd)) emptyAgg
             (\<lambda>a. Inr (addToAgg a q (fst kd))) of
        Inl e \<Rightarrow> Inl e
      | Inr ts \<Rightarrow> Inr (node\<lparr>storey_agg := addToAgg (storey_agg node) q (fst kd), types := ts\<rparr>))"
  have "\<exists>v'. g v = Inr v'" for v
  proof -
    obtain ts where "obj_modify (types v) (type_key (snd kd)) emptyAgg
        (\<lambda>a. Inr (addToAgg a q (fst kd))) = Inr ts"
      using obj_modify_returns [OF assms(2), of "\<lambda>a. Inr (addToAgg a q (fst kd))"] by blast
    then show ?thesis by (simp add: g_def)
  qed
  then obtain tree' where
    "obj_modify (fst acc) (storey_key (snd kd)) empty_storey_node g = Inr tree'"
    using obj_modify_returns [OF assms(1), of g] by blast
  then show ?thesis
    unfolding spatial_step_def Let_def g_def q_def storey_key_def type_key_def by simp
qed

lemma aggregateSpatial_returns:
  assumes "\<forall>kd \<in> set es. \<not> inherited (storey_key (snd kd)) \<and> \<not> inherited (type_key (snd kd))"
  shows "\<exists>r. aggregateSpatial es = Inr r"
proof -
  have "\<exists>r. spatial_loop es acc = Inr r" for acc
    using assms
  proof (induction es arbitrary: acc)
    case Nil
    then show ?case by simp
  next
    case (Cons kd es)
    then obtain mid where "spatial_step kd acc = Inr mid"
      using spatial_step_returns [of kd acc] by auto
    then show ?case using Cons by simp
  qed
  then show ?thesis by (simp add: aggregateSpatial_def)
qed

lemma short_not_inherited: "length k < 7 \<Longrightarrow> \<not> inherited k"
  using inherited_length by (fastforce simp: inherited_def)

lemma uniformat_step_returns:
  assumes "\<forall>c. cls (fst kd) = Some c \<longrightarrow> truthy (code c) \<longrightarrow>
             (\<exists>l3. code c = JStr l3 \<and> \<not> inherited l3)"
  shows "\<exists>r. uniformat_step cls kd acc = Inr r"
proof (cases "cls (fst kd)")
  case None
  then show ?thesis by (simp add: uniformat_step_def Let_def)
next
  case (Some c)
  show ?thesis
  proof (cases "truthy (code c)")
    case False
    then show ?thesis using Some by (simp add: uniformat_step_def Let_def)
  next
    case True
    then obtain l3 where l3: "code c = JStr l3" "\<not> inherited l3"
      using assms Some by blast
    define q where "q = extractQuantities (props (snd kd))"
    define g2 where "g2 = (\<lambda>n2 :: aggregate uf_node.
        case obj_modify (children n2) l3 emptyAgg (\<lambda>a. Inr (addToAgg a q (fst kd))) of
          Inl e \<Rightarrow> Inl e
        | Inr c3 \<Rightarrow> Inr (n2\<lparr>agg := addToAgg (agg n2) q (fst kd), children := c3\<rparr>))"
    define g1 where "g1 = (\<lambda>n1 :: aggregate uf_node uf_node.
        case obj_modify (children n1) (take 3 l3) empty_uf_node g2 of
          Inl e \<Rightarrow> Inl e
        | Inr c2 \<Rightarrow> Inr (n1\<lparr>agg := addToAgg (agg n1) q (fst kd), children := c2\<rparr>))"
    have r2: "\<exists>v'. g2 v = Inr v'" for v
    proof -
      obtain c3 where "obj_modify (children v) l3 emptyAgg
          (\<lambda>a. Inr (addToAgg a q (fst kd))) = Inr c3"
        using obj_modify_returns [OF l3(2), of "\<lambda>a. Inr (addToAgg a q (fst kd))"] by blast
      then show ?thesis by (simp add: g2_def)
    qed
    have r1: "\<exists>v'. g1 v = Inr v'" for v
    proof -
      have "\<not> inherited (take 3 l3)" by (rule short_not_inherited) simp
      then obtain c2 where "obj_modify (children v) (take 3 l3) empty_uf_node g2 = Inr c2"
        using obj_modify_returns [of "take 3 l3" g2] r2 by blast
      then show ?thesis by (simp add: g1_def)
    qed
    have "\<not> inherited (take 1 l3)" by (rule short_not_inherited) simp
    then obtain tree' where "obj_modify (fst acc) (take 1 l3) empty_uf_node g1 = Inr tree'"
      using obj_modify_returns [of "take 1 l3" g1] r1 by blast
    then show ?thesis
      using Some True l3(1)
      unfolding uniformat_step_def Let_def g1_def g2_def q_def by auto
  qed
qed

lemma aggregateUniformat_returns:
  assumes "\<forall>kd \<in> set es. \<forall>c. cls (fst kd) = Some c \<longrightarrow> truthy (code c) \<longrightarrow>
             (\<exists>l3. code c = JStr l3 \<and> \<not> inherited l3)"
  shows "\<exists>r. aggregateUniformat es cls = Inr r"
proof -
  have "\<exists>r. uniformat_loop cls es acc = Inr r" for acc
    using assms
  proof (induction es arbitrary: acc)
    case Nil
    then show ?case by (cases acc) simp
  next
    case (Cons kd es)
    then obtain mid where "uniformat_step cls kd acc = Inr mid"
      using uniformat_step_returns [of cls kd acc] by auto
    then show ?case using Cons by simp
  qed
  then show ?thesis by (simp add: aggregateUniformat_def)
qed

lemma isexternal_key: "classifyQuantityKey ''Pset_WallCommon.IsExternal'' = None"
  by (simp add: quantity_eval string_eval)

lemma q_wall: "extractQuantities (props sample_wall) =
    (\<lambda>c. case c of Volume \<Rightarrow> 3 | _ \<Rightarrow> 0)"
  by (rule ext) (simp add: sample_wall_def extractQuantities_def push_candidate_def
      isexternal_key vol_key1 vol_key2 gross_key3 gross_key4 Math_max_def split: category.splits)

lemma q_door: "extractQuantities (props sample_door) =
    (\<lambda>c. case c of Area \<Rightarrow> 12 | _ \<Rightarrow> 0)"
  by (rule ext) (simp add: sample_door_def extractQuantities_def push_candidate_def
      area_key gross_key2 Math_max_def split: category.splits)

lemma q_proxy: "extractQuantities (props sample_proxy) = (\<lambda>c. 0)"
  by (simp add: sample_proxy_def extractQuantities_def)

lemma not_inherited_samples:
  "\<not> inherited ''Level 1''" "\<not> inherited ''Unassigned''" "\<not> inherited ''IFCWALL''"
  "\<not> inherited ''IFCDOOR''" "\<not> inherited ''IFCBUILDINGELEMENTPROXY''"
  "\<not> inherited ''C1010''" "\<not> inherited ''B2030''" "\<not> inherited ''C''" "\<not> inherited ''B''"
  "\<not> inherited ''C10''" "\<not> inherited ''B20''"
  by (simp_all add: inherited_def Object_prototype_names_def)

lemma spatial_sample:
  "aggregateSpatial (elementDataMap sample_viewer) = Inr (fst sample_spatial, snd sample_spatial)"
  by code_simp

lemma uniformat_sample:
  "aggregateUniformat (elementDataMap sample_viewer) sample_classifications =
     Inr (fst sample_uniformat, fst (snd sample_uniformat), snd (snd sample_uniformat))"
  by code_simp

theorem aggregation_conservation_witness:
  "aggregateSpatial (elementDataMap sample_viewer) = Inr sample_spatial \<and>
   spatial_conserved ea (fst sample_spatial) (snd sample_spatial) \<and>
   spatial_conserved keys_of (fst sample_spatial) (snd sample_spatial) \<and>
   obj_sum (storey_leaves keys_of) (fst sample_spatial) =
     mset (map fst (elementDataMap sample_viewer)) \<and>
   distinct (map fst (elementDataMap sample_viewer)) \<and>
   count (obj_sum (storey_leaves keys_of) (fst sample_spatial)) ''3:42'' = 1 \<and>
   spatial_all (sums_members (elementDataMap sample_viewer))
     (fst sample_spatial) (snd sample_spatial) \<and>
   aggregateUniformat (elementDataMap sample_viewer) sample_classifications =
     Inr sample_uniformat \<and>
   uniformat_conserved ea (fst sample_uniformat) (fst (snd sample_uniformat))
     (snd (snd sample_uniformat)) \<and>
   uniformat_conserved keys_of (fst sample_uniformat) (fst (snd sample_uniformat))
     (snd (snd sample_uniformat)) \<and>
   obj_sum (l1_leaves keys_of) (fst sample_uniformat) + keys_of (snd (snd sample_uniformat)) =
     mset (map fst (elementDataMap sample_viewer)) \<and>
   count (obj_sum (l1_leaves keys_of) (fst sample_uniformat) +
          keys_of (snd (snd sample_uniformat))) ''3:44'' = 1 \<and>
   uniformat_all (sums_members (elementDataMap sample_viewer))
     (fst sample_uniformat) (fst (snd sample_uniformat)) (snd (snd sample_uniformat))"
proof -
  have d: "distinct (map fst (elementDataMap sample_viewer))"
    by (simp add: sample_viewer_def)
  have k: "''3:42'' \<in> fst ` set (elementDataMap sample_viewer)"
    "''3:44'' \<in> fst ` set (elementDataMap sample_viewer)"
    by (simp_all add: sample_viewer_def)
  note inst = aggregation_conservation
      [of "elementDataMap sample_viewer" "fst sample_spatial" "snd sample_spatial"
          sample_classifications "fst sample_uniformat" "fst (snd sample_uniformat)"
          "snd (snd sample_uniformat)"]
  have s1: "spatial_conserved ea (fst sample_spatial) (snd sample_spatial)"
    using inst spatial_sample by blast
  have s2: "spatial_conserved keys_of (fst sample_spatial) (snd sample_spatial)"
    using inst spatial_sample by blast
  have s3: "obj_sum (storey_leaves keys_of) (fst sample_spatial) =
      mset (map fst (elementDataMap sample_viewer))"
    using inst spatial_sample by blast
  have s4: "count (obj_sum (storey_leaves keys_of) (fst sample_spatial)) ''3:42'' = 1"
    using inst spatial_sample d k(1) by blast
  have s5: "spatial_all (sums_members (elementDataMap sample_viewer))
      (fst sample_spatial) (snd sample_spatial)"
    using inst spatial_sample d by blast
  have u1: "uniformat_conserved ea (fst sample_uniformat) (fst (snd sample_uniformat))
      (snd (snd sample_uniformat))"
    using inst uniformat_sample by blast
  have u2: "uniformat_conserved keys_of (fst sample_uniformat) (fst (snd sample_uniformat))
      (snd (snd sample_uniformat))"
    using inst uniformat_sample by blast
  have u3: "obj_sum (l1_leaves keys_of) (fst sample_uniformat) +
      keys_of (snd (snd sample_uniformat)) = mset (map fst (elementDataMap sample_viewer))"
    using inst uniformat_sample by blast
  have u4: "count (obj_sum (l1_leaves keys_of) (fst sample_uniformat) +
      keys_of (snd (snd sample_uniformat))) ''3:44'' = 1"
    using inst uniformat_sample d k(2) by blast
  have u5: "uniformat_all (sums_members (elementDataMap sample_viewer))
      (fst sample_uniformat) (fst (snd sample_uniformat)) (snd (snd sample_uniformat))"
    using inst uniformat_sample d by blast
  have e1: "aggregateSpatial (elementDataMap sample_viewer) = Inr sample_spatial"
    using spatial_sample by simp
  have e2: "aggregateUniformat (elementDataMap sample_viewer) sample_classifications =
      Inr sample_uniformat"
    using uniformat_sample by simp
  from e1 s1 s2 s3 d s4 s5 e2 u1 u2 u3 u4 u5 show ?thesis by blast
qed

section \<open>Rounding in the aggregates\<close>

text \<open>
  The area, length and volume of a node and the sum over its leaves are running sums of
  the same contributions. When every quantity is zero or a normal double, each of them
  stays within the rounding of at most \<open>n + 2\<close> operations from the exact total, \<open>n\<close> being
  the number of elements of the node, so that they differ by no more than
  \<open>(1 + 2\<^sup>-\<^sup>5\<^sup>3)\<^sup>n\<^sup>+\<^sup>2 - (1 - 2\<^sup>-\<^sup>5\<^sup>3)\<^sup>n\<^sup>+\<^sup>2\<close> of that total (about \<open>(n + 2) \<cdot> 2.2 \<cdot> 10\<^sup>-\<^sup>1\<^sup>6\<close>).
\<close>

lemma col_add_element:
  "col c (add_element kd a) =
     fadd (col c a) (fmul (extractQuantities (props (snd kd)) (measured c)) (factor c))"
  by (cases c) (simp_all add: add_element_def addToAgg_def)

lemma col_fold_add:
  "col c (fold add_element xs a) =
     fold (\<lambda>q s. fadd s (fmul q (factor c)))
       (map (\<lambda>kd. extractQuantities (props (snd kd)) (measured c)) xs) (col c a)"
  by (induction xs arbitrary: a) (simp_all add: col_add_element)

lemma ea_fold_add: "ea (fold add_element xs a) = ea a + length xs"
  by (induction xs arbitrary: a) (simp_all add: add_element_def addToAgg_def)

lemma col_empty: "col c emptyAgg = 0"
  by (cases c) (simp_all add: emptyAgg_def)

lemma key_quantity_member:
  assumes "distinct (map fst es)" and "kd \<in> set es"
  shows "key_quantity c es (fst kd) = extractQuantities (props (snd kd)) (measured c)"
proof -
  have "(fst kd, snd kd) \<in> set es" using assms(2) by simp
  then have "map_of es (fst kd) = Some (snd kd)"
    using assms(1) by (simp only: map_of_eq_Some_iff)
  then show ?thesis by (simp add: key_quantity_def)
qed

lemma sums_members_running:
  assumes "sums_members es a" and "distinct (map fst es)"
  shows "col c a = running_sum (factor c) (map (key_quantity c es) (elements a))"
    and "ea a = length (elements a)"
proof -
  define xs where "xs = filter (\<lambda>kd. fst kd \<in> set (elements a)) es"
  have a: "a = fold add_element xs emptyAgg"
    using assms(1) unfolding sums_members_def member_total_def xs_def .
  have el: "elements a = map fst xs"
    by (subst a) (simp add: elements_fold_add emptyAgg_def)
  have "key_quantity c es (fst kd) = extractQuantities (props (snd kd)) (measured c)"
    if "kd \<in> set xs" for kd
    using that by (intro key_quantity_member [OF assms(2)]) (simp add: xs_def)
  then have q: "map (key_quantity c es) (elements a) =
      map (\<lambda>kd. extractQuantities (props (snd kd)) (measured c)) xs"
    unfolding el by simp
  have "col c a = col c (fold add_element xs emptyAgg)"
    by (subst a) (rule refl)
  then show "col c a = running_sum (factor c) (map (key_quantity c es) (elements a))"
    unfolding q by (simp add: col_fold_add col_empty running_sum_def)
  have "ea a = ea (fold add_element xs emptyAgg)"
    by (subst a) (rule refl)
  then show "ea a = length (elements a)"
    unfolding el by (simp add: ea_fold_add emptyAgg_def)
qed

lemma factor_bounds_closed:
  "(1 - unit_roundoff) * (107639 / 10000) \<le> M2_TO_SF"
  "M2_TO_SF \<le> (1 + unit_roundoff) * (107639 / 10000)"
  "1 \<le> M2_TO_SF"
  "(1 - unit_roundoff) * (328084 / 100000) \<le> M_TO_LF"
  "M_TO_LF \<le> (1 + unit_roundoff) * (328084 / 100000)"
  "1 \<le> M_TO_LF"
  "(1 - unit_roundoff) * (130795 / 100000) \<le> M3_TO_CY"
  "M3_TO_CY \<le> (1 + unit_roundoff) * (130795 / 100000)"
  "1 \<le> M3_TO_CY"
  by code_simp+

lemma factor_bounds:
  "0 \<le> decimal_factor c"
  "(1 - unit_roundoff) * decimal_factor c \<le> factor c"
  "factor c \<le> (1 + unit_roundoff) * decimal_factor c"
  "1 \<le> factor c"
proof -
  show "0 \<le> decimal_factor c" by (cases c) simp_all
  show "(1 - unit_roundoff) * decimal_factor c \<le> factor c"
    by (cases c) (simp_all only: factor.simps decimal_factor.simps factor_bounds_closed)
  show "factor c \<le> (1 + unit_roundoff) * decimal_factor c"
    by (cases c) (simp_all only: factor.simps decimal_factor.simps factor_bounds_closed)
  show "1 \<le> factor c"
    by (cases c) (simp_all only: factor.simps factor_bounds_closed)
qed

lemma key_quantity_normal:
  assumes "normal_quantities es"
  shows "key_quantity c es k = 0 \<or> min_normal \<le> key_quantity c es k"
proof (cases "map_of es k")
  case None
  then show ?thesis by (simp add: key_quantity_def)
next
  case (Some d)
  then have "(k, d) \<in> set es" by (rule map_of_SomeD)
  then have "\<forall>cat \<in> set [Area, Length, Volume].
      extractQuantities (props d) cat = 0 \<or> min_normal \<le> extractQuantities (props d) cat"
    using assms by (fastforce simp: normal_quantities_def list_all_iff)
  then show ?thesis using Some by (cases c) (simp_all add: key_quantity_def)
qed

lemma key_quantity_nonneg: "normal_quantities es \<Longrightarrow> 0 \<le> key_quantity c es k"
  using key_quantity_normal [of es c k] min_normal_pos by auto

lemma exact_total_nonneg:
  assumes "normal_quantities es"
  shows "0 \<le> exact_total c es M"
proof -
  have "0 \<le> (\<Sum>k \<in># M. key_quantity c es k)"
    by (induction M) (simp_all add: key_quantity_nonneg [OF assms])
  then show ?thesis
    unfolding exact_total_def using factor_bounds(1) [of c] by (rule mult_nonneg_nonneg [rotated])
qed

lemma exact_total_add: "exact_total c es (M + N) = exact_total c es M + exact_total c es N"
  by (simp add: exact_total_def distrib_left)

lemma exact_total_empty: "exact_total c es {#} = 0"
  by (simp add: exact_total_def)

lemma sums_members_within:
  assumes "sums_members es a" and "distinct (map fst es)" and "normal_quantities es"
  shows "within_rounding (col c a) (ea a) (exact_total c es (keys_of a))"
proof -
  define qs where "qs = map (key_quantity c es) (elements a)"
  have "q = 0 \<or> (0 < q \<and> min_normal \<le> q * factor c)" if qin: "q \<in> set qs" for q
  proof -
    obtain k where "q = key_quantity c es k" using qin by (auto simp: qs_def)
    then have n: "q = 0 \<or> min_normal \<le> q" using key_quantity_normal [OF assms(3)] by simp
    show ?thesis
    proof (cases "q = 0")
      case True
      then show ?thesis by simp
    next
      case False
      then have m: "min_normal \<le> q" using n by simp
      then have pos: "0 < q" using min_normal_pos by simp
      have "q * 1 \<le> q * factor c"
        using factor_bounds(4) [of c] pos by (intro mult_left_mono) simp_all
      then have "q \<le> q * factor c" by (simp only: mult_1_right)
      then have "min_normal \<le> q * factor c" using m by (rule order_trans [rotated])
      then show ?thesis using pos by blast
    qed
  qed
  then have "\<forall>q \<in> set qs. q = 0 \<or> (0 < q \<and> min_normal \<le> q * factor c)" by blast
  then have "within_rounding (running_sum (factor c) qs) (length qs)
      (decimal_factor c * sum_list qs)"
    using factor_bounds(1,2,3) [of c]
    by (intro running_sum_interval [THEN conjunct2])
  moreover have "sum_list qs = (\<Sum>k \<in># keys_of a. key_quantity c es k)"
    by (simp add: qs_def keys_of_def sum_mset_sum_list [symmetric])
  ultimately show ?thesis
    using sums_members_running(1) [OF assms(1,2), of c] sums_members_running(2) [OF assms(1,2)]
    by (simp add: qs_def exact_total_def)
qed

lemma unit_power_bounds:
  "0 \<le> (1 - unit_roundoff) ^ n" "(1 - unit_roundoff) ^ n \<le> 1" "1 \<le> (1 + unit_roundoff) ^ n"
  using unit_roundoff_range by (simp_all add: power_le_one)

lemma within_rounding_mono:
  assumes "within_rounding x m e" and "m \<le> n" and "0 \<le> e"
  shows "within_rounding x n e"
proof -
  have "(1 - unit_roundoff) ^ (n + 2) \<le> (1 - unit_roundoff) ^ (m + 2)"
    using unit_roundoff_range assms(2) by (intro power_decreasing) simp_all
  then have lo: "(1 - unit_roundoff) ^ (n + 2) * e \<le> (1 - unit_roundoff) ^ (m + 2) * e"
    using assms(3) by (rule mult_right_mono)
  have "(1 + unit_roundoff) ^ (m + 2) \<le> (1 + unit_roundoff) ^ (n + 2)"
    using unit_roundoff_range assms(2) by (intro power_increasing) simp_all
  then have hi: "(1 + unit_roundoff) ^ (m + 2) * e \<le> (1 + unit_roundoff) ^ (n + 2) * e"
    using assms(3) by (rule mult_right_mono)
  show ?thesis using assms(1) lo hi by (simp add: within_rounding_def)
qed

lemma within_rounding_add:
  assumes "within_rounding x n e" and "within_rounding y n e'"
  shows "within_rounding (x + y) n (e + e')"
  using assms unfolding within_rounding_def distrib_left by linarith

lemma within_rounding_near:
  assumes "within_rounding x n e" and "within_rounding y n e"
  shows "\<bar>x - y\<bar> \<le> rounding_spread n * e"
  using assms unfolding within_rounding_def rounding_spread_def left_diff_distrib by linarith

lemma within_rounding_sum:
  assumes "\<forall>kv \<in> set obj. within_rounding (v (snd kv)) n (exact_total c es (ks (snd kv)))"
  shows "within_rounding (obj_sum v obj) n (exact_total c es (obj_sum ks obj))"
  using assms
proof (induction obj)
  case Nil
  then show ?case by (simp add: within_rounding_def exact_total_empty)
next
  case (Cons kv obj)
  then show ?case by (simp add: exact_total_add within_rounding_add)
qed

lemma obj_sum_member_le:
  fixes f :: "'v \<Rightarrow> nat"
  shows "kv \<in> set obj \<Longrightarrow> f (snd kv) \<le> obj_sum f obj"
  by (induction obj) auto

lemma leaves_within:
  assumes "list_all (\<lambda>kv. sums_members es (snd kv)) obj"
    and "distinct (map fst es)" and "normal_quantities es"
    and "obj_sum ea obj \<le> n"
  shows "within_rounding (obj_sum (col c) obj) n (exact_total c es (obj_sum keys_of obj))"
proof (rule within_rounding_sum, rule ballI)
  fix kv assume kv: "kv \<in> set obj"
  then have "sums_members es (snd kv)" using assms(1) by (simp add: list_all_iff)
  then have "within_rounding (col c (snd kv)) (ea (snd kv)) (exact_total c es (keys_of (snd kv)))"
    using assms(2,3) by (rule sums_members_within)
  moreover have "ea (snd kv) \<le> n"
    using obj_sum_member_le [OF kv, of ea] assms(4) by simp
  ultimately show "within_rounding (col c (snd kv)) n (exact_total c es (keys_of (snd kv)))"
    using exact_total_nonneg [OF assms(3)] by (rule within_rounding_mono)
qed

lemma near_leavesI:
  assumes "\<And>c. within_rounding (col c a) (ea a) (exact_total c es (keys_of a))"
    and "\<And>c. within_rounding (leaves c) (ea a) (exact_total c es (keys_of a))"
  shows "near_leaves es a leaves"
  using within_rounding_near [OF assms(1) assms(2)] by (simp add: near_leaves_def)

lemma storey_near:
  assumes "storey_all (sums_members es) n"
    and "ea (storey_agg n) = storey_leaves ea n"
    and "keys_of (storey_agg n) = storey_leaves keys_of n"
    and "distinct (map fst es)" and "normal_quantities es"
  shows "near_leaves es (storey_agg n) (\<lambda>c. storey_leaves (col c) n)"
proof (rule near_leavesI)
  fix c
  show "within_rounding (col c (storey_agg n)) (ea (storey_agg n))
      (exact_total c es (keys_of (storey_agg n)))"
    using assms(1,4,5) by (intro sums_members_within) (simp_all add: storey_all_def)
  have "within_rounding (obj_sum (col c) (types n)) (ea (storey_agg n))
      (exact_total c es (obj_sum keys_of (types n)))"
    using assms(1,2,4,5) by (intro leaves_within) (simp_all add: storey_all_def storey_leaves_def)
  then show "within_rounding (storey_leaves (col c) n) (ea (storey_agg n))
      (exact_total c es (keys_of (storey_agg n)))"
    using assms(3) by (simp add: storey_leaves_def)
qed

lemma aggregateSpatial_near:
  assumes "aggregateSpatial es = Inr (tree, totals)"
    and "distinct (map fst es)" and "normal_quantities es"
  shows "spatial_near es tree totals"
proof -
  note cons = aggregateSpatial_conserved [OF assms(1)]
  note mem = aggregateSpatial_members [OF assms(1,2)]
  have nodes: "near_leaves es (storey_agg (snd kv)) (\<lambda>c. storey_leaves (col c) (snd kv))"
    if "kv \<in> set tree" for kv
  proof (rule storey_near [OF _ _ _ assms(2,3)])
    show "storey_all (sums_members es) (snd kv)"
      using mem that by (simp add: spatial_all_def list_all_iff)
    show "ea (storey_agg (snd kv)) = storey_leaves ea (snd kv)"
      using cons(1) that by (simp add: spatial_conserved_def list_all_iff)
    show "keys_of (storey_agg (snd kv)) = storey_leaves keys_of (snd kv)"
      using cons(2) that by (simp add: spatial_conserved_def list_all_iff)
  qed
  have tot: "near_leaves es totals (\<lambda>c. obj_sum (storey_leaves (col c)) tree)"
  proof (rule near_leavesI)
    fix c
    show "within_rounding (col c totals) (ea totals) (exact_total c es (keys_of totals))"
      using mem assms(2,3) by (intro sums_members_within) (simp_all add: spatial_all_def)
    have "within_rounding (obj_sum (storey_leaves (col c)) tree) (ea totals)
        (exact_total c es (obj_sum (storey_leaves keys_of) tree))"
    proof (rule within_rounding_sum, rule ballI)
      fix kv assume kv: "kv \<in> set tree"
      have "storey_leaves ea (snd kv) \<le> obj_sum (storey_leaves ea) tree"
        using kv by (rule obj_sum_member_le)
      then have "obj_sum ea (types (snd kv)) \<le> ea totals"
        using cons(1) by (simp add: spatial_conserved_def storey_leaves_def)
      moreover have "list_all (\<lambda>kv. sums_members es (snd kv)) (types (snd kv))"
        using mem kv by (simp add: spatial_all_def storey_all_def list_all_iff)
      ultimately show "within_rounding (storey_leaves (col c) (snd kv)) (ea totals)
          (exact_total c es (storey_leaves keys_of (snd kv)))"
        unfolding storey_leaves_def using assms(2,3) by (intro leaves_within)
    qed
    then show "within_rounding (obj_sum (storey_leaves (col c)) tree) (ea totals)
        (exact_total c es (keys_of totals))"
      using cons(2) by (simp add: spatial_conserved_def)
  qed
  show ?thesis
    using nodes tot by (simp add: spatial_near_def list_all_iff)
qed


lemma l2_leaves_within:
  fixes n2 :: "aggregate uf_node"
  assumes "l2_all (sums_members es) n2"
    and "distinct (map fst es)" and "normal_quantities es"
    and "l2_leaves ea n2 \<le> n"
  shows "within_rounding (l2_leaves (col c) n2) n (exact_total c es (l2_leaves keys_of n2))"
  unfolding l2_leaves_def
  using assms by (intro leaves_within) (simp_all add: l2_all_def l2_leaves_def)

lemma l1_leaves_within:
  fixes n1 :: "aggregate uf_node uf_node"
  assumes "l1_all (sums_members es) n1"
    and "distinct (map fst es)" and "normal_quantities es"
    and "l1_leaves ea n1 \<le> n"
  shows "within_rounding (l1_leaves (col c) n1) n (exact_total c es (l1_leaves keys_of n1))"
  unfolding l1_leaves_def
proof (rule within_rounding_sum, rule ballI)
  fix kv assume kv: "kv \<in> set (children n1)"
  have "l2_leaves ea (snd kv) \<le> obj_sum (l2_leaves ea) (children n1)"
    using kv by (rule obj_sum_member_le)
  then have "l2_leaves ea (snd kv) \<le> n"
    using assms(4) by (simp add: l1_leaves_def)
  moreover have "l2_all (sums_members es) (snd kv)"
    using assms(1) kv by (simp add: l1_all_def list_all_iff)
  ultimately show "within_rounding (l2_leaves (col c) (snd kv)) n
      (exact_total c es (l2_leaves keys_of (snd kv)))"
    using assms(2,3) by (intro l2_leaves_within)
qed

lemma l2_near:
  fixes n2 :: "aggregate uf_node"
  assumes "l2_all (sums_members es) n2"
    and "ea (agg n2) = l2_leaves ea n2"
    and "keys_of (agg n2) = l2_leaves keys_of n2"
    and "distinct (map fst es)" and "normal_quantities es"
  shows "near_leaves es (agg n2) (\<lambda>c. l2_leaves (col c) n2)"
proof (rule near_leavesI)
  fix c
  show "within_rounding (col c (agg n2)) (ea (agg n2)) (exact_total c es (keys_of (agg n2)))"
    using assms(1,4,5) by (intro sums_members_within) (simp_all add: l2_all_def)
  show "within_rounding (l2_leaves (col c) n2) (ea (agg n2))
      (exact_total c es (keys_of (agg n2)))"
    using l2_leaves_within [OF assms(1,4,5), of "ea (agg n2)" c] assms(2,3) by simp
qed

lemma l1_near:
  fixes n1 :: "aggregate uf_node uf_node"
  assumes "l1_all (sums_members es) n1"
    and "ea (agg n1) = l1_leaves ea n1"
    and "keys_of (agg n1) = l1_leaves keys_of n1"
    and "distinct (map fst es)" and "normal_quantities es"
  shows "near_leaves es (agg n1) (\<lambda>c. l1_leaves (col c) n1)"
proof (rule near_leavesI)
  fix c
  show "within_rounding (col c (agg n1)) (ea (agg n1)) (exact_total c es (keys_of (agg n1)))"
    using assms(1,4,5) by (intro sums_members_within) (simp_all add: l1_all_def)
  show "within_rounding (l1_leaves (col c) n1) (ea (agg n1))
      (exact_total c es (keys_of (agg n1)))"
    using l1_leaves_within [OF assms(1,4,5), of "ea (agg n1)" c] assms(2,3) by simp
qed

lemma aggregateUniformat_near:
  assumes "aggregateUniformat es cls = Inr (tree, totals, unclassified)"
    and "distinct (map fst es)" and "normal_quantities es"
  shows "uniformat_near es tree totals unclassified"
proof -
  note cons = aggregateUniformat_conserved [OF assms(1)]
  note mem = aggregateUniformat_members [OF assms(1,2)]
  have l1: "l1_all (sums_members es) (snd kv)" if "kv \<in> set tree" for kv
    using mem that by (simp add: uniformat_all_def list_all_iff)
  have n1: "near_leaves es (agg (snd kv)) (\<lambda>c. l1_leaves (col c) (snd kv))"
    if "kv \<in> set tree" for kv
  proof (rule l1_near [OF l1 [OF that] _ _ assms(2,3)])
    show "ea (agg (snd kv)) = l1_leaves ea (snd kv)"
      using cons(1) that by (simp add: uniformat_conserved_def list_all_iff)
    show "keys_of (agg (snd kv)) = l1_leaves keys_of (snd kv)"
      using cons(2) that by (simp add: uniformat_conserved_def list_all_iff)
  qed
  have n2: "near_leaves es (agg (snd kv2)) (\<lambda>c. l2_leaves (col c) (snd kv2))"
    if "kv \<in> set tree" "kv2 \<in> set (children (snd kv))" for kv kv2
  proof (rule l2_near [OF _ _ _ assms(2,3)])
    show "l2_all (sums_members es) (snd kv2)"
      using l1 [OF that(1)] that(2) by (simp add: l1_all_def list_all_iff)
    show "ea (agg (snd kv2)) = l2_leaves ea (snd kv2)"
      using cons(1) that by (simp add: uniformat_conserved_def list_all_iff)
    show "keys_of (agg (snd kv2)) = l2_leaves keys_of (snd kv2)"
      using cons(2) that by (simp add: uniformat_conserved_def list_all_iff)
  qed
  have count: "ea totals = obj_sum (l1_leaves ea) tree + ea unclassified"
    using cons(1) by (simp add: uniformat_conserved_def)
  have keys: "keys_of totals = obj_sum (l1_leaves keys_of) tree + keys_of unclassified"
    using cons(2) by (simp add: uniformat_conserved_def)
  have tot: "near_leaves es totals (\<lambda>c. obj_sum (l1_leaves (col c)) tree + col c unclassified)"
  proof (rule near_leavesI)
    fix c
    show "within_rounding (col c totals) (ea totals) (exact_total c es (keys_of totals))"
      using mem assms(2,3) by (intro sums_members_within) (simp_all add: uniformat_all_def)
    have tree: "within_rounding (obj_sum (l1_leaves (col c)) tree) (ea totals)
        (exact_total c es (obj_sum (l1_leaves keys_of) tree))"
    proof (rule within_rounding_sum, rule ballI)
      fix kv assume kv: "kv \<in> set tree"
      have "l1_leaves ea (snd kv) \<le> obj_sum (l1_leaves ea) tree"
        using kv by (rule obj_sum_member_le)
      then have "l1_leaves ea (snd kv) \<le> ea totals" using count by simp
      then show "within_rounding (l1_leaves (col c) (snd kv)) (ea totals)
          (exact_total c es (l1_leaves keys_of (snd kv)))"
        using l1 [OF kv] assms(2,3) by (intro l1_leaves_within)
    qed
    have "sums_members es unclassified"
      using mem by (simp add: uniformat_all_def)
    then have "within_rounding (col c unclassified) (ea unclassified)
        (exact_total c es (keys_of unclassified))"
      using assms(2,3) by (rule sums_members_within)
    moreover have "ea unclassified \<le> ea totals" using count by simp
    ultimately have "within_rounding (col c unclassified) (ea totals)
        (exact_total c es (keys_of unclassified))"
      using exact_total_nonneg [OF assms(3)] by (rule within_rounding_mono)
    then show "within_rounding (obj_sum (l1_leaves (col c)) tree + col c unclassified)
        (ea totals) (exact_total c es (keys_of totals))"
      unfolding keys exact_total_add using tree by (intro within_rounding_add)
  qed
  show ?thesis
    using n1 n2 tot by (simp add: uniformat_near_def list_all_iff)
qed

section \<open>The stored codes away from inherited names\<close>

text \<open>
  The three passes of the cascade only produce known leaf codes, and every mutation
  path keeps the stored codes within the known leaf codes as long as no code it is
  handed, and no element type, is a name that every object inherits.
\<close>

lemma ufPattern_length: "ufPattern s \<Longrightarrow> length s = 5"
  by (induction s rule: ufPattern.induct) simp_all

lemma pattern_guard_known:
  assumes "ufPattern s" and "truthy (js_get L3_LABELS s)"
  shows "known_leaf_code s"
proof -
  have "\<not> inherited s"
    using ufPattern_length [OF assms(1)] by (intro short_not_inherited) simp
  then show ?thesis using assms(2) guard_accepts by blast
qed

lemma detect_loop_known: "code_ok (detect_loop es)"
  by (induction es rule: detect_loop.induct) (simp_all add: code_ok_def pattern_guard_known)

lemma code_ok_null: "code_ok JNull"
  by (simp add: code_ok_def)

lemma detectFromProperties_known: "code_ok (detectFromProperties d)"
  by (cases "props d") (simp_all add: detectFromProperties_def detect_loop_known code_ok_null)

lemma heuristic_codes_known:
  "known_leaf_code ''C1010''" "known_leaf_code ''A2020''" "known_leaf_code ''B2010''"
  "known_leaf_code ''C1020''" "known_leaf_code ''B2030''" "known_leaf_code ''B2020''"
  "known_leaf_code ''B1020''" "known_leaf_code ''A1030''" "known_leaf_code ''B1010''"
  "known_leaf_code ''A1020''" "known_leaf_code ''A1010''"
  by code_simp+

lemma code_ok_if: "code_ok x \<Longrightarrow> code_ok y \<Longrightarrow> code_ok (if b then x else y)"
  by simp

lemma heuristic_codes_ok:
  "code_ok (JStr ''C1010'')" "code_ok (JStr ''A2020'')" "code_ok (JStr ''B2010'')"
  "code_ok (JStr ''C1020'')" "code_ok (JStr ''B2030'')" "code_ok (JStr ''B2020'')"
  "code_ok (JStr ''B1020'')" "code_ok (JStr ''A1030'')" "code_ok (JStr ''B1010'')"
  "code_ok (JStr ''A1020'')" "code_ok (JStr ''A1010'')"
  by (simp_all add: code_ok_def heuristic_codes_known)

lemma contextAwareMap_known: "code_ok (contextAwareMap d)"
  unfolding contextAwareMap_def Let_def
  by (intro code_ok_if code_ok_null heuristic_codes_ok)

lemma default_codes_known: "known_leaf_code ''C1030''" "known_leaf_code ''C2010''"
  by code_simp+

lemma default_map_values: "\<forall>kv \<in> set IFC_TYPE_DEFAULT_MAP. code_ok (snd kv)"
  by (simp add: IFC_TYPE_DEFAULT_MAP_def code_ok_def heuristic_codes_known default_codes_known)

lemma default_known:
  assumes "\<not> inherited t"
  shows "code_ok (or_null (js_get IFC_TYPE_DEFAULT_MAP t))"
proof (cases "map_of IFC_TYPE_DEFAULT_MAP t")
  case None
  then show ?thesis using assms by (simp add: js_get_def or_null_def code_ok_def)
next
  case (Some v)
  then have "(t, v) \<in> set IFC_TYPE_DEFAULT_MAP" by (rule map_of_SomeD)
  then have "code_ok v" using default_map_values by fastforce
  then show ?thesis using Some by (auto simp: js_get_def or_null_def code_ok_def)
qed

lemma rederive_known: "\<not> inherited (ifcType d) \<Longrightarrow> code_ok (code (rederive d))"
  using detectFromProperties_known [of d] contextAwareMap_known [of d] default_known [of "ifcType d"]
  by (simp add: rederive_def Let_def)


lemma ran_upd_cases: "r \<in> ran (m(k \<mapsto> v)) \<Longrightarrow> r = v \<or> r \<in> ran m"
  by (auto simp: ran_def split: if_splits)

lemma known_obj_set:
  "list_all (\<lambda>kv. known_leaf_code (snd kv)) m \<Longrightarrow> known_leaf_code c \<Longrightarrow>
   list_all (\<lambda>kv. known_leaf_code (snd kv)) (obj_set m k c)"
  using set_obj_set [of m k c] by (fastforce simp: list_all_iff)

lemma classify_step_known:
  assumes "list_all (\<lambda>kv. known_leaf_code (snd kv)) ov"
    and "\<not> inherited (ifcType (snd kd))"
    and "\<forall>r \<in> ran cls. code_ok (code r)"
  shows "\<forall>r \<in> ran (classify_step ov kd cls). code_ok (code r)"
proof (cases "map_of ov (fst kd)")
  case None
  then have "classify_step ov kd cls = cls(fst kd \<mapsto> rederive (snd kd))"
    by (rule classify_step_rederive)
  then show ?thesis
    using assms(3) rederive_known [OF assms(2)] ran_upd_cases by fastforce
next
  case (Some c)
  then have "(fst kd, c) \<in> set ov" by (rule map_of_SomeD)
  then have "known_leaf_code c" using assms(1) by (fastforce simp: list_all_iff)
  then have "code_ok (JStr c)" by (simp add: code_ok_def)
  moreover have "classify_step ov kd cls =
      cls(fst kd \<mapsto> \<lparr>code = JStr c, source = ''manual'', confidence = 1\<rparr>)"
    using Some by (simp add: classify_step_def)
  ultimately show ?thesis using assms(3) ran_upd_cases by fastforce
qed

lemma fold_classify_known:
  assumes "list_all (\<lambda>kv. known_leaf_code (snd kv)) ov"
  shows "\<forall>kd \<in> set es. \<not> inherited (ifcType (snd kd)) \<Longrightarrow>
         \<forall>r \<in> ran cls. code_ok (code r) \<Longrightarrow>
         \<forall>r \<in> ran (fold (classify_step ov) es cls). code_ok (code r)"
proof (induction es arbitrary: cls)
  case Nil
  then show ?case by simp
next
  case (Cons kd es)
  have "\<forall>r \<in> ran (classify_step ov kd cls). code_ok (code r)"
    using classify_step_known [OF assms, of kd cls] Cons.prems by simp
  then show ?case using Cons by simp
qed

lemma classifyAllElements_known:
  assumes "list_all (\<lambda>kv. known_leaf_code (snd kv)) (manualOverrides st)"
    and "\<forall>kd \<in> set (elementDataMap vs). \<not> inherited (ifcType (snd kd))"
  shows "codes_known (classifyAllElements vs st)"
  using assms fold_classify_known [OF assms(1), of "elementDataMap vs" Map.empty]
  by (simp add: codes_known_def classifyAllElements_def)

lemma setManualClassification_known:
  assumes "codes_known st" and "\<not> inherited c"
  shows "codes_known (setManualClassification vs k (Some c) st)"
proof (cases "c \<noteq> [] \<and> truthy (js_get L3_LABELS c)")
  case True
  then have k: "known_leaf_code c" using assms(2) guard_accepts by blast
  then have "code_ok (JStr c)" by (simp add: code_ok_def)
  then show ?thesis
    using True assms(1) k ran_upd_cases
    by (fastforce simp: codes_known_def setManualClassification_def map_set_def known_obj_set)
next
  case False
  then show ?thesis using assms(1)
    by (auto simp: codes_known_def setManualClassification_def)
qed

lemma clearOverride_known:
  assumes "codes_known st"
    and "\<forall>kd \<in> set (elementDataMap vs). \<not> inherited (ifcType (snd kd))"
  shows "codes_known (setManualClassification vs k None st)"
proof -
  have del: "list_all (\<lambda>kv. known_leaf_code (snd kv)) (map_delete (manualOverrides st) k)"
    using assms(1) by (simp add: codes_known_def map_delete_def list_all_iff)
  show ?thesis
  proof (cases "map_of (elementDataMap vs) k")
    case None
    then show ?thesis using assms(1) del
      by (simp add: codes_known_def setManualClassification_def)
  next
    case (Some d)
    then have "(k, d) \<in> set (elementDataMap vs)" by (rule map_of_SomeD)
    then have "code_ok (code (rederive d))" using assms(2) rederive_known by fastforce
    then show ?thesis using Some assms(1) del ran_upd_cases
      by (fastforce simp: codes_known_def setManualClassification_def)
  qed
qed

lemma bulk_step_known:
  "codes_known st \<Longrightarrow> \<not> inherited c \<Longrightarrow> codes_known (bulk_step ty c kd st)"
proof (cases "ifcType (snd kd) = ty \<and> c \<noteq> [] \<and> truthy (js_get L3_LABELS c)")
  case True
  assume a: "codes_known st" "\<not> inherited c"
  then have k: "known_leaf_code c" using True guard_accepts by blast
  then have "code_ok (JStr c)" by (simp add: code_ok_def)
  then show ?thesis
    using True a(1) k ran_upd_cases
    by (fastforce simp: codes_known_def bulk_step_def map_set_def known_obj_set)
next
  case False
  assume "codes_known st"
  then show ?thesis using False by (auto simp: bulk_step_def)
qed

lemma bulkAssignByType_known:
  assumes "codes_known st" and "\<not> inherited c"
  shows "codes_known (bulkAssignByType vs ty c st)"
proof -
  have "codes_known (fold (bulk_step ty c) es st)" for es
    using assms(1)
    by (induction es arbitrary: st) (simp_all add: bulk_step_known assms(2))
  then show ?thesis by (simp add: bulkAssignByType_def codes_known_def)
qed

lemma load_step_known:
  assumes "list_all (\<lambda>kv. known_leaf_code (snd kv)) (fst acc)" and "\<not> inherited (snd e)"
  shows "list_all (\<lambda>kv. known_leaf_code (snd kv)) (fst (load_step ms e acc))"
proof (cases "fromStableKey ms (fst e)")
  case None
  then show ?thesis using assms(1) by (simp add: load_step_def)
next
  case (Some ck)
  show ?thesis
  proof (cases "ck \<noteq> [] \<and> truthy (js_get L3_LABELS (snd e))")
    case True
    then have "known_leaf_code (snd e)" using assms(2) guard_accepts by blast
    then show ?thesis using Some True assms(1)
      by (simp add: load_step_def map_set_def known_obj_set)
  next
    case False
    then show ?thesis using Some assms(1) by (auto simp: load_step_def)
  qed
qed

lemma fold_load_known:
  "list_all (\<lambda>kv. known_leaf_code (snd kv)) (fst acc) \<Longrightarrow>
   \<forall>e \<in> set data. \<not> inherited (snd e) \<Longrightarrow>
   list_all (\<lambda>kv. known_leaf_code (snd kv)) (fst (fold (load_step ms) data acc))"
  by (induction data arbitrary: acc) (simp_all add: load_step_known)

lemma loadOverrides_known:
  assumes "codes_known st"
    and "\<forall>data. storage st = Some data \<longrightarrow> (\<forall>e \<in> set data. \<not> inherited (snd e))"
  shows "codes_known (fst (loadOverrides vs st))"
proof (cases "storage st")
  case None
  then show ?thesis using assms(1) by (simp add: loadOverrides_def)
next
  case (Some data)
  then have "\<forall>e \<in> set data. \<not> inherited (snd e)" using assms(2) by simp
  then have "list_all (\<lambda>kv. known_leaf_code (snd kv))
      (fst (fold (load_step (models vs)) data (manualOverrides st, 0)))"
    using assms(1) fold_load_known [of "(manualOverrides st, 0)" data "models vs"]
    by (simp add: codes_known_def)
  then show ?thesis using Some assms(1)
    by (simp add: loadOverrides_def codes_known_def Let_def)
qed

lemma importOverrides_known:
  assumes "codes_known st"
    and "\<forall>e \<in> set data. \<not> inherited (snd e)"
    and "\<forall>kd \<in> set (elementDataMap vs). \<not> inherited (ifcType (snd kd))"
  shows "codes_known (importOverrides vs data st)"
proof -
  define ov where "ov = fst (fold (load_step (models vs)) data (manualOverrides st, 0))"
  have "list_all (\<lambda>kv. known_leaf_code (snd kv)) ov"
    using assms(1,2) fold_load_known [of "(manualOverrides st, 0)" data "models vs"]
    by (simp add: codes_known_def ov_def)
  then have "codes_known (classifyAllElements vs (st\<lparr>manualOverrides := ov\<rparr>))"
    using assms(3) by (intro classifyAllElements_known) simp_all
  then show ?thesis
    by (simp add: importOverrides_def Let_def ov_def codes_known_def)
qed


end
